theory Spec2Isabelle
  imports Main
begin

section \<open>Values, parameter objects and errors\<close>

text \<open>
  The program is one TypeScript class, \<open>Route\<close> (src/index.ts). Its strings are modelled
  as \<open>string\<close>, one \<open>char\<close> for one code unit. A parameter object is an ordinary
  JavaScript object: the one \<open>parse\<close> builds starts as the literal \<open>{}\<close>, the one
  \<open>compile\<close> is given has the declared type \<open>Record<string, string>\<close>. Such an object is
  modelled by its own properties, a map from property names to values, and its prototype
  is \<open>Object.prototype\<close>.

  An own property, or an element of a match array, is a string or \<open>undefined\<close>. Reading a
  property can also give what \<open>Object.prototype\<close> provides: one of its built-in
  functions (\<open>Builtin name\<close>), or, under the name \<open>__proto__\<close>, the prototype of the
  object, which is \<open>Object.prototype\<close> itself.
\<close>

datatype jsval = Undefined | Str string | ObjectPrototype | Builtin string

type_synonym obj = "string \<rightharpoonup> jsval"

text \<open>
  The names under which \<open>Object.prototype\<close> has a built-in function (ECMA-262, with
  Annex B). Together with the accessor \<open>__proto__\<close> these are all its properties with a
  string as name.
\<close>

definition Object_prototype_functions :: "string list" where
  "Object_prototype_functions =
     [''constructor'', ''hasOwnProperty'', ''isPrototypeOf'', ''propertyIsEnumerable'',
      ''toLocaleString'', ''toString'', ''valueOf'', ''__defineGetter__'',
      ''__defineSetter__'', ''__lookupGetter__'', ''__lookupSetter__'']"

text \<open>What an object without own property \<open>k\<close> gives for \<open>k\<close>: the lookup goes to the prototype.\<close>

definition inherited :: "string \<Rightarrow> jsval" where
  "inherited k =
     (if k = ''__proto__'' then ObjectPrototype
      else if k \<in> set Object_prototype_functions then Builtin k
      else Undefined)"

text \<open>
  \<open>params[name]\<close>: an own property if there is one, otherwise what the prototype has
  under the name, otherwise \<open>undefined\<close>.
\<close>

definition get_prop :: "obj \<Rightarrow> string \<Rightarrow> jsval" where
  "get_prop ps k = (case ps k of None \<Rightarrow> inherited k | Some v \<Rightarrow> v)"

text \<open>
  \<open>params[name] = v\<close>, for a string or \<open>undefined\<close> as \<open>v\<close> (\<open>parse\<close> assigns elements of
  the match array). The assignment makes or changes an own property, with one exception:
  when the object has no own property \<open>__proto__\<close>, the assignment to that name calls the
  setter inherited from \<open>Object.prototype\<close>, which ignores a value that is neither an
  object nor \<open>null\<close>. Nothing is stored then.
\<close>

definition set_prop :: "obj \<Rightarrow> string \<Rightarrow> jsval \<Rightarrow> obj" where
  "set_prop ps k v = (if k = ''__proto__'' \<and> ps k = None then ps else ps(k \<mapsto> v))"

text \<open>
  Truthiness, as \<open>!params[paramName]\<close> tests it: \<open>undefined\<close> and the empty string are
  falsy, every object and function is truthy.
\<close>

definition truthy :: "jsval \<Rightarrow> bool" where
  "truthy v =
     (case v of
        Undefined \<Rightarrow> False
      | Str s \<Rightarrow> s \<noteq> []
      | ObjectPrototype \<Rightarrow> True
      | Builtin k \<Rightarrow> True)"

text \<open>
  The string a replacer's return value is turned into. For \<open>Object.prototype\<close> it is the
  result of its \<open>toString\<close>. For a built-in function it is the text the host gives for
  the function; ECMA-262 fixes its form, and it is written here as V8 prints it (the
  function under \<open>constructor\<close> is \<open>Object\<close>).
\<close>

definition to_string :: "jsval \<Rightarrow> string" where
  "to_string v =
     (case v of
        Undefined \<Rightarrow> ''undefined''
      | Str s \<Rightarrow> s
      | ObjectPrototype \<Rightarrow> ''[object Object]''
      | Builtin k \<Rightarrow>
          ''function '' @ (if k = ''constructor'' then ''Object'' else k)
            @ ''() { [native code] }'')"

text \<open>
  \<open>Error msg\<close> is \<open>throw new Error(msg)\<close>. \<open>SyntaxError\<close> is what \<open>new RegExp\<close> throws on
  an ill-formed pattern. \<open>OutsideFragment\<close> is not an outcome of the program: it marks a
  pattern that uses regular-expression syntax this development does not model.
\<close>

datatype error = Error string | SyntaxError | OutsideFragment

text \<open>\<open>s.slice(start, end)\<close> of the host, negative indices counting from the end.\<close>

definition slice :: "string \<Rightarrow> int \<Rightarrow> int \<Rightarrow> string" where
  "slice s start fin =
     (let len = int (length s);
          from = (if start < 0 then max (len + start) 0 else min start len);
          to = (if fin < 0 then max (len + fin) 0 else min fin len)
      in take (nat (max (to - from) 0)) (drop (nat from) s))"

section \<open>Regular expressions of the host\<close>

text \<open>
  \<open>new RegExp(source)\<close> and the matching behind \<open>test\<close> and \<open>match\<close> belong to the
  JavaScript host, not to the repository. They are modelled after ECMA-262 (pattern
  grammar of Annex B, no flags) for this fragment: literal characters, \<open>.\<close>, character
  classes with ranges, capturing and \<open>(?:\<close> groups, \<open>|\<close>, the quantifiers
  \<open>* + ? {n} {n,} {n,m}\<close> with their lazy forms, \<open>^\<close>, \<open>$\<close>, and a backslash before
  a syntax character or \<open>/\<close>. Every other construct gives \<open>OutsideFragment\<close>.
\<close>

datatype regex =
    Empty
  | Chr char
  | Dot
  | Class bool "(char \<times> char) list"
  | Bol
  | Eol
  | Seq regex regex
  | Alt regex regex
  | Group nat regex
  | Rep nat "nat option" bool regex

datatype tok =
    TChar char
  | TDot
  | TClass bool "(char \<times> char) list"
  | TOpen bool
  | TClose
  | TBar
  | TRep nat "nat option" bool
  | TBol
  | TEol

definition syntax_char :: "char \<Rightarrow> bool" where
  "syntax_char c = (c \<in> set ''^$.*+?()[]{}|'' \<or> c = CHR 0x5C)"

definition is_digit :: "char \<Rightarrow> bool" where
  "is_digit c = (c \<in> set ''0123456789'')"

definition digits_val :: "string \<Rightarrow> nat" where
  "digits_val ds = foldl (\<lambda>n d. 10 * n + (of_char d - 48)) 0 ds"

text \<open>A run of decimal digits at the head of a text: its value and the rest.\<close>

definition number :: "string \<Rightarrow> (nat \<times> string) option" where
  "number cs =
     (if takeWhile is_digit cs = [] then None
      else Some (digits_val (takeWhile is_digit cs), dropWhile is_digit cs))"

text \<open>A quantifier followed by \<open>?\<close> is lazy: the result is the greedy flag and the rest.\<close>

definition lazy_suffix :: "string \<Rightarrow> bool \<times> string" where
  "lazy_suffix cs =
     (case cs of
        [] \<Rightarrow> (True, cs)
      | d # ds \<Rightarrow> if d = CHR ''?'' then (False, ds) else (True, cs))"

text \<open>
  The text after an opening brace, read as \<open>n}\<close>, \<open>n,}\<close> or \<open>n,m}\<close>: the bounds and
  the rest. \<open>None\<close> when it has none of these forms; the brace is then a literal.
\<close>

definition braced :: "string \<Rightarrow> (nat \<times> nat option \<times> string) option" where
  "braced cs =
     (case number cs of
        None \<Rightarrow> None
      | Some (mn, r) \<Rightarrow>
          (case r of
             [] \<Rightarrow> None
           | x # r1 \<Rightarrow>
               if x = CHR ''}'' then Some (mn, Some mn, r1)
               else if x = CHR '','' then
                 (case r1 of
                    [] \<Rightarrow> None
                  | y # r2 \<Rightarrow>
                      if y = CHR ''}'' then Some (mn, None, r2)
                      else (case number r1 of
                              None \<Rightarrow> None
                            | Some (mx, r3) \<Rightarrow>
                                (case r3 of
                                   [] \<Rightarrow> None
                                 | z # r4 \<Rightarrow>
                                     if z = CHR ''}'' then Some (mn, Some mx, r4) else None)))
               else None))"

text \<open>
  The inside of a character class, after \<open>[\<close> and an optional \<open>^\<close>, up to the closing
  bracket: the ranges and the rest. A class that is not closed, or a range whose ends
  are out of order, is a syntax error. An escaped character is modelled only where it
  stands alone, not as an end of a range.
\<close>

definition dash_next :: "string \<Rightarrow> bool" where
  "dash_next cs = (case cs of [] \<Rightarrow> False | d # ds \<Rightarrow> d = CHR ''-'')"

fun class_items :: "string \<Rightarrow> error + (char \<times> char) list \<times> string" where
  "class_items [] = Inl SyntaxError"
| "class_items (c # cs) =
     (if c = CHR '']'' then Inr ([], cs)
      else if c = CHR 0x5C then
        (case cs of
           [] \<Rightarrow> Inl SyntaxError
         | d # ds \<Rightarrow>
             if (syntax_char d \<or> d = CHR ''/'' \<or> d = CHR ''-'') \<and> \<not> dash_next ds then
               (case class_items ds of
                  Inl e \<Rightarrow> Inl e
                | Inr (rs, rest) \<Rightarrow> Inr ((d, d) # rs, rest))
             else Inl OutsideFragment)
      else
        (case cs of
           [] \<Rightarrow> Inl SyntaxError
         | d # ds \<Rightarrow>
             if d = CHR ''-'' then
               (case ds of
                  [] \<Rightarrow> Inl SyntaxError
                | e # es \<Rightarrow>
                    if e = CHR '']'' then Inr ([(c, c), (d, d)], es)
                    else if e = CHR 0x5C then Inl OutsideFragment
                    else if (of_char e :: nat) < of_char c then Inl SyntaxError
                    else (case class_items es of
                            Inl err \<Rightarrow> Inl err
                          | Inr (rs, rest) \<Rightarrow> Inr ((c, e) # rs, rest)))
             else
               (case class_items cs of
                  Inl e \<Rightarrow> Inl e
                | Inr (rs, rest) \<Rightarrow> Inr ((c, c) # rs, rest))))"

definition char_class :: "string \<Rightarrow> error + tok \<times> string" where
  "char_class cs =
     (case cs of
        [] \<Rightarrow> Inl SyntaxError
      | d # ds \<Rightarrow>
          if d = CHR ''^'' then
            (case class_items ds of
               Inl e \<Rightarrow> Inl e
             | Inr (rs, rest) \<Rightarrow> Inr (TClass True rs, rest))
          else
            (case class_items cs of
               Inl e \<Rightarrow> Inl e
             | Inr (rs, rest) \<Rightarrow> Inr (TClass False rs, rest)))"

text \<open>The pattern text as a list of tokens, read left to right.\<close>

definition cons_tok :: "tok \<Rightarrow> error + tok list \<Rightarrow> error + tok list" where
  "cons_tok t r = (case r of Inl e \<Rightarrow> Inl e | Inr ts \<Rightarrow> Inr (t # ts))"

function lex :: "string \<Rightarrow> error + tok list" where
  "lex [] = Inr []"
| "lex (c # cs) =
     (if c = CHR 0x5C then
        (case cs of
           [] \<Rightarrow> Inl SyntaxError
         | d # ds \<Rightarrow>
             if syntax_char d \<or> d = CHR ''/'' then cons_tok (TChar d) (lex ds)
             else Inl OutsideFragment)
      else if c = CHR ''('' then
        (case cs of
           [] \<Rightarrow> cons_tok (TOpen True) (lex cs)
         | d # ds \<Rightarrow>
             if d = CHR ''?'' then
               (case ds of
                  [] \<Rightarrow> Inl SyntaxError
                | e # es \<Rightarrow>
                    if e = CHR '':'' then cons_tok (TOpen False) (lex es)
                    else Inl OutsideFragment)
             else cons_tok (TOpen True) (lex cs))
      else if c = CHR '')'' then cons_tok TClose (lex cs)
      else if c = CHR ''|'' then cons_tok TBar (lex cs)
      else if c = CHR ''.'' then cons_tok TDot (lex cs)
      else if c = CHR ''^'' then cons_tok TBol (lex cs)
      else if c = CHR ''$'' then cons_tok TEol (lex cs)
      else if c = CHR ''*'' then
        cons_tok (TRep 0 None (fst (lazy_suffix cs))) (lex (snd (lazy_suffix cs)))
      else if c = CHR ''+'' then
        cons_tok (TRep 1 None (fst (lazy_suffix cs))) (lex (snd (lazy_suffix cs)))
      else if c = CHR ''?'' then
        cons_tok (TRep 0 (Some 1) (fst (lazy_suffix cs))) (lex (snd (lazy_suffix cs)))
      else if c = CHR ''{'' then
        (case braced cs of
           None \<Rightarrow> cons_tok (TChar c) (lex cs)
         | Some (mn, mx, rest) \<Rightarrow>
             if (case mx of None \<Rightarrow> False | Some m \<Rightarrow> m < mn) then Inl SyntaxError
             else cons_tok (TRep mn mx (fst (lazy_suffix rest))) (lex (snd (lazy_suffix rest))))
      else if c = CHR ''['' then
        (case char_class cs of
           Inl e \<Rightarrow> Inl e
         | Inr (t, rest) \<Rightarrow> cons_tok t (lex rest))
      else cons_tok (TChar c) (lex cs))"
  by pat_completeness auto
termination
proof -
  have lz: "length (snd (lazy_suffix s)) \<le> length s" for s
    by (cases s) (auto simp: lazy_suffix_def)
  have nm: "length r \<le> length s" if "number s = Some (n, r)" for s n r
    using that length_dropWhile_le[of is_digit s] by (auto simp: number_def split: if_splits)
  have br: "length r \<le> length s" if a: "braced s = Some (a, b, r)" for s a b r
  proof (cases "number s")
    case None
    with a show ?thesis by (simp add: braced_def)
  next
    case (Some p)
    obtain mn r0 where p: "p = (mn, r0)" by (cases p)
    from Some p nm have l0: "length r0 \<le> length s" by simp
    show ?thesis
    proof (cases r0)
      case Nil
      with a Some p show ?thesis by (simp add: braced_def)
    next
      case c1: (Cons x r1)
      show ?thesis
      proof (cases "x = CHR ''}''")
        case True
        with a Some p c1 l0 show ?thesis by (auto simp: braced_def)
      next
        case nx: False
        show ?thesis
        proof (cases r1)
          case Nil
          with a Some p c1 nx show ?thesis by (auto simp: braced_def split: if_splits)
        next
          case c2: (Cons y r2)
          show ?thesis
          proof (cases "y = CHR ''}''")
            case True
            with a Some p c1 c2 nx l0 show ?thesis
              by (auto simp: braced_def split: if_splits)
          next
            case ny: False
            show ?thesis
            proof (cases "number r1")
              case None
              with a Some p c1 c2 nx ny show ?thesis
                by (auto simp: braced_def split: if_splits)
            next
              case s2: (Some q)
              obtain mx r3 where q: "q = (mx, r3)" by (cases q)
              from s2 q nm have l3: "length r3 \<le> length r1" by simp
              from a Some p c1 nx ny s2 q c2 have
                "(case r3 of [] \<Rightarrow> None | z # r4 \<Rightarrow>
                    if z = CHR ''}'' then Some (mn, Some mx, r4) else None) = Some (a, b, r)"
                by (simp add: braced_def split: if_splits)
              then have "length r \<le> length r3"
                by (cases r3) (auto split: if_splits)
              with l3 l0 c1 show ?thesis by simp
            qed
          qed
        qed
      qed
    qed
  qed
  have ci: "length r \<le> length s" if "class_items s = Inr (rs, r)" for s rs r
    using that
  proof (induction "length s" arbitrary: s rs r rule: less_induct)
    case less
    show ?case
    proof (cases s)
      case Nil
      with less.prems show ?thesis by simp
    next
      case (Cons c cs)
      have ih: "length r' \<le> length t"
        if "class_items t = Inr (rs', r')" "length t < length s" for t rs' r'
        using less.hyps that by blast
      from less.prems Cons have "class_items (c # cs) = Inr (rs, r)" by simp
      then have "r = cs \<or> (\<exists>t rs'. class_items t = Inr (rs', r) \<and> length t \<le> length cs)
          \<or> (\<exists>x y. cs = x # y # r)"
        unfolding class_items.simps
        by (auto simp del: class_items.simps split: if_splits list.splits sum.splits prod.splits)
      then show ?thesis
        using ih Cons by (elim disjE exE conjE) (simp, fastforce, simp)
    qed
  qed
  have cc: "length r \<le> length s" if "char_class s = Inr (t, r)" for s t r
  proof (cases s)
    case Nil
    with that show ?thesis by (simp add: char_class_def)
  next
    case (Cons d ds)
    with that have "(\<exists>rs. class_items ds = Inr (rs, r)) \<or> (\<exists>rs. class_items s = Inr (rs, r))"
      by (auto simp add: char_class_def simp del: class_items.simps split: if_splits sum.splits)
    with ci Cons show ?thesis by fastforce
  qed
  show ?thesis
  proof (relation "measure length")
    fix c :: char and cs :: string
    show "(snd (lazy_suffix cs), c # cs) \<in> measure length"
      using lz[of cs] by simp
  next
    fix c :: char and cs :: string and mn mx rest x y
    assume "braced cs = Some x" "(mn, y) = x" "(mx, rest) = y"
    then have "braced cs = Some (mn, mx, rest)" by simp
    from br[OF this] lz[of rest]
    show "(snd (lazy_suffix rest), c # cs) \<in> measure length" by simp
  next
    fix c :: char and cs :: string and x t rest
    assume "char_class cs = Inr x" "(t, rest) = x"
    then have "char_class cs = Inr (t, rest)" by simp
    from cc[OF this] show "(rest, c # cs) \<in> measure length" by simp
  qed (simp_all add: less_Suc_eq_le lz)
qed

declare class_items.simps [simp del]
declare lex.simps [simp del]

text \<open>
  The tokens as a syntax tree. A frame holds what has been read of one group (or of the
  whole pattern): the capture index of the group if it captures, the alternatives already
  closed by \<open>|\<close> (latest first), the terms of the open alternative (latest first) and
  whether the latest term may still take a quantifier. Capturing groups are numbered from
  1 in the order of their opening parentheses.
\<close>

type_synonym frame = "nat option \<times> regex list \<times> regex list \<times> bool"

definition new_frame :: "nat option \<Rightarrow> frame" where
  "new_frame cap = (cap, [], [], False)"

definition mk_seq :: "regex list \<Rightarrow> regex" where
  "mk_seq ts = foldr Seq ts Empty"

fun mk_alt :: "regex list \<Rightarrow> regex" where
  "mk_alt [] = Empty"
| "mk_alt [a] = a"
| "mk_alt (a # b # bs) = Alt a (mk_alt (b # bs))"

definition push_term :: "regex \<Rightarrow> bool \<Rightarrow> frame \<Rightarrow> frame" where
  "push_term r q fr = (case fr of (cap, alts, ts, _) \<Rightarrow> (cap, alts, r # ts, q))"

definition next_alt :: "frame \<Rightarrow> frame" where
  "next_alt fr = (case fr of (cap, alts, ts, _) \<Rightarrow> (cap, mk_seq (rev ts) # alts, [], False))"

definition finish :: "frame \<Rightarrow> regex" where
  "finish fr = (case fr of (cap, alts, ts, _) \<Rightarrow> mk_alt (rev (mk_seq (rev ts) # alts)))"

definition wrap :: "frame \<Rightarrow> regex" where
  "wrap fr = (case fst fr of None \<Rightarrow> finish fr | Some k \<Rightarrow> Group k (finish fr))"

text \<open>A quantifier with no term before it, or after \<open>^\<close>, \<open>$\<close> or another quantifier, is a syntax error.\<close>

definition quantify :: "nat \<Rightarrow> nat option \<Rightarrow> bool \<Rightarrow> frame \<Rightarrow> frame option" where
  "quantify mn mx g fr =
     (case fr of (cap, alts, ts, q) \<Rightarrow>
        (case ts of
           [] \<Rightarrow> None
         | t # ts' \<Rightarrow> if q then Some (cap, alts, Rep mn mx g t # ts', False) else None))"

fun parse_toks :: "tok list \<Rightarrow> frame \<Rightarrow> frame list \<Rightarrow> nat \<Rightarrow> error + regex" where
  "parse_toks [] fr stk n = (case stk of [] \<Rightarrow> Inr (finish fr) | _ # _ \<Rightarrow> Inl SyntaxError)"
| "parse_toks (TChar c # ts) fr stk n = parse_toks ts (push_term (Chr c) True fr) stk n"
| "parse_toks (TDot # ts) fr stk n = parse_toks ts (push_term Dot True fr) stk n"
| "parse_toks (TClass neg rs # ts) fr stk n = parse_toks ts (push_term (Class neg rs) True fr) stk n"
| "parse_toks (TBol # ts) fr stk n = parse_toks ts (push_term Bol False fr) stk n"
| "parse_toks (TEol # ts) fr stk n = parse_toks ts (push_term Eol False fr) stk n"
| "parse_toks (TBar # ts) fr stk n = parse_toks ts (next_alt fr) stk n"
| "parse_toks (TOpen cap # ts) fr stk n =
     (if cap then parse_toks ts (new_frame (Some (Suc n))) (fr # stk) (Suc n)
      else parse_toks ts (new_frame None) (fr # stk) n)"
| "parse_toks (TClose # ts) fr stk n =
     (case stk of
        [] \<Rightarrow> Inl SyntaxError
      | parent # stk' \<Rightarrow> parse_toks ts (push_term (wrap fr) True parent) stk' n)"
| "parse_toks (TRep mn mx g # ts) fr stk n =
     (case quantify mn mx g fr of
        None \<Rightarrow> Inl SyntaxError
      | Some fr' \<Rightarrow> parse_toks ts fr' stk n)"

text \<open>The syntax tree \<open>new RegExp(source)\<close> builds, or the error it throws.\<close>

definition RegExp :: "string \<Rightarrow> error + regex" where
  "RegExp source =
     (case lex source of
        Inl e \<Rightarrow> Inl e
      | Inr ts \<Rightarrow> parse_toks ts (new_frame None) [] 0)"

subsection \<open>Matching\<close>

text \<open>
  A match state is the part of the input not yet consumed and the captures so far.
  \<open>ms r inp x\<close> lists, in the order in which the backtracking matcher of ECMA-262 tries
  them, the states in which \<open>r\<close> can end when started in \<open>x\<close>; what follows \<open>r\<close> in the
  pattern is tried on the first, then on the second, and so on. In a quantifier, the
  captures of the groups inside are cleared before each round, and a round that starts
  with no lower bound left must consume a character (matching only moves forward in this
  fragment, so "it ends where it began" is "it did not get shorter").
\<close>

type_synonym caps = "nat \<Rightarrow> string option"

type_synonym mstate = "string \<times> caps"

fun in_class :: "(char \<times> char) list \<Rightarrow> char \<Rightarrow> bool" where
  "in_class [] c = False"
| "in_class ((lo, hi) # rs) c =
     (((of_char lo :: nat) \<le> of_char c \<and> (of_char c :: nat) \<le> of_char hi) \<or> in_class rs c)"

definition line_terminator :: "char \<Rightarrow> bool" where
  "line_terminator c = (c = CHR 0x0A \<or> c = CHR 0x0D)"

fun groups_of :: "regex \<Rightarrow> nat list" where
  "groups_of (Seq a b) = groups_of a @ groups_of b"
| "groups_of (Alt a b) = groups_of a @ groups_of b"
| "groups_of (Group k a) = k # groups_of a"
| "groups_of (Rep mn mx g a) = groups_of a"
| "groups_of r = []"

definition clear :: "nat list \<Rightarrow> caps \<Rightarrow> caps" where
  "clear ks cp = (\<lambda>i. if i \<in> set ks then None else cp i)"

fun rsize :: "regex \<Rightarrow> nat" where
  "rsize (Seq a b) = Suc (rsize a + rsize b)"
| "rsize (Alt a b) = Suc (rsize a + rsize b)"
| "rsize (Group k a) = Suc (rsize a)"
| "rsize (Rep mn mx g a) = Suc (rsize a)"
| "rsize r = 0"

definition dec_max :: "nat option \<Rightarrow> nat option" where
  "dec_max mx = (case mx of None \<Rightarrow> None | Some m \<Rightarrow> Some (m - 1))"

function ms :: "regex \<Rightarrow> string \<Rightarrow> mstate \<Rightarrow> mstate list" where
  "ms Empty inp x = [x]"
| "ms (Chr c) inp x =
     (case fst x of [] \<Rightarrow> [] | d # ds \<Rightarrow> if d = c then [(ds, snd x)] else [])"
| "ms Dot inp x =
     (case fst x of [] \<Rightarrow> [] | d # ds \<Rightarrow> if \<not> line_terminator d then [(ds, snd x)] else [])"
| "ms (Class neg rs) inp x =
     (case fst x of [] \<Rightarrow> [] | d # ds \<Rightarrow> if in_class rs d \<noteq> neg then [(ds, snd x)] else [])"
| "ms Bol inp x = (if length (fst x) = length inp then [x] else [])"
| "ms Eol inp x = (if fst x = [] then [x] else [])"
| "ms (Seq a b) inp x = concat (map (ms b inp) (ms a inp x))"
| "ms (Alt a b) inp x = ms a inp x @ ms b inp x"
| "ms (Group k a) inp x =
     map (\<lambda>y. (fst y, (snd y)(k \<mapsto> take (length (fst x) - length (fst y)) (fst x))))
       (ms a inp x)"
| "ms (Rep mn mx g a) inp x =
     (if mx = Some 0 then [x]
      else
        let again =
          concat (map (\<lambda>y. if mn = 0 \<and> \<not> length (fst y) < length (fst x) then []
                            else ms (Rep (mn - 1) (dec_max mx) g a) inp y)
                    (ms a inp (fst x, clear (groups_of a) (snd x))))
        in if mn \<noteq> 0 then again
           else if g then again @ [x]
           else x # again)"
  by pat_completeness auto
termination
  by (relation "(\<lambda>(r, inp, x). rsize r) <*mlex*> (\<lambda>(r, inp, x). case r of Rep mn mx g a \<Rightarrow> mn | _ \<Rightarrow> 0)
        <*mlex*> (\<lambda>(r, inp, x). length (fst x)) <*mlex*> {}")
     (auto simp: wf_mlex mlex_less mlex_leq)

declare ms.simps(10) [simp del]

text \<open>
  The number of capturing groups of a pattern, and one attempt at a start index: the
  first state the matcher ends in gives the match array, element 0 the matched text and
  element \<open>i\<close> the capture of group \<open>i\<close> (\<open>undefined\<close> for a group that took no part).
\<close>

definition ngroups :: "regex \<Rightarrow> nat" where
  "ngroups r = length (groups_of r)"

definition capture :: "caps \<Rightarrow> nat \<Rightarrow> jsval" where
  "capture cp i = (case cp i of None \<Rightarrow> Undefined | Some s \<Rightarrow> Str s)"

definition match_at :: "regex \<Rightarrow> string \<Rightarrow> nat \<Rightarrow> jsval list option" where
  "match_at r inp i =
     (case ms r inp (drop i inp, \<lambda>_. None) of
        [] \<Rightarrow> None
      | y # _ \<Rightarrow>
          Some (Str (take (length inp - i - length (fst y)) (drop i inp))
                # map (capture (snd y)) [1..<Suc (ngroups r)]))"

text \<open>
  The start indices of a list are tried in turn until one matches: the result is that
  index and the match array.
\<close>

fun first_match :: "regex \<Rightarrow> string \<Rightarrow> nat list \<Rightarrow> (nat \<times> jsval list) option" where
  "first_match r inp [] = None"
| "first_match r inp (i # is) =
     (case match_at r inp i of None \<Rightarrow> first_match r inp is | Some m \<Rightarrow> Some (i, m))"

text \<open>
  A regular expression object: the syntax tree of its pattern, whether it has the \<open>g\<close>
  flag, and its property \<open>lastIndex\<close>. \<open>new RegExp(source)\<close> has no flag and \<open>lastIndex\<close> 0.
\<close>

record regexp =
  ast :: regex
  global :: bool
  lastIndex :: nat

definition new_RegExp :: "string \<Rightarrow> error + regexp" where
  "new_RegExp source =
     (case RegExp source of
        Inl e \<Rightarrow> Inl e
      | Inr t \<Rightarrow> Inr \<lparr>ast = t, global = False, lastIndex = 0\<rparr>)"

text \<open>
  \<open>rx.exec(inp)\<close>, the operation behind \<open>rx.test(inp)\<close> and, for a pattern without the
  \<open>g\<close> flag, behind \<open>inp.match(rx)\<close> (RegExpBuiltinExec of ECMA-262). The result is the
  match array or \<open>null\<close>, and the object after the call. Without the flag the search
  starts at index 0 and the object is left as it is. With the flag the search starts at
  \<open>lastIndex\<close>, which is then set to the end of the match, or to 0 when there is none.
\<close>

definition matched_length :: "jsval list \<Rightarrow> nat" where
  "matched_length m = (case m of Str s # _ \<Rightarrow> length s | _ \<Rightarrow> 0)"

definition regexp_exec :: "regexp \<Rightarrow> string \<Rightarrow> jsval list option \<times> regexp" where
  "regexp_exec rx inp =
     (let start = (if global rx then lastIndex rx else 0)
      in case first_match (ast rx) inp [start..<Suc (length inp)] of
           None \<Rightarrow> (None, if global rx then rx\<lparr>lastIndex := 0\<rparr> else rx)
         | Some (i, m) \<Rightarrow>
             (Some m, if global rx then rx\<lparr>lastIndex := i + matched_length m\<rparr> else rx))"

text \<open>
  What \<open>exec\<close> and \<open>test\<close> return for a pattern without flags, as functions of the syntax
  tree and the text alone.
\<close>

definition exec :: "regex \<Rightarrow> string \<Rightarrow> jsval list option" where
  "exec r inp = map_option snd (first_match r inp [0..<Suc (length inp)])"

definition test :: "regex \<Rightarrow> string \<Rightarrow> bool" where
  "test r inp = (exec r inp \<noteq> None)"

section \<open>Global replacement\<close>

text \<open>
  \<open>text.replaceAll(rx, f)\<close> with a pattern \<open>rx\<close> that has the \<open>g\<close> flag and a replacer
  function \<open>f\<close>. The host first finds all matches, left to right and without overlap:
  from the current index it looks for the nearest index at which \<open>rx\<close> matches, and goes
  on behind the match (one character further when the match is empty). \<open>match_here\<close> is
  one attempt, at the head of what is left of the text: the matched text and what follows
  it. \<open>matchAll\<close> cuts the text into the characters no match covers and the matches.
  The host sets \<open>lastIndex\<close> of the pattern to 0 before the search, and the last, failing
  search leaves it 0 again, so a replacement depends on the syntax tree of the pattern
  and on the text alone, and the pattern is given here by its syntax tree.
\<close>

definition match_here :: "regex \<Rightarrow> string \<Rightarrow> string \<Rightarrow> (string \<times> string) option" where
  "match_here rx inp s =
     (case ms rx inp (s, \<lambda>_. None) of
        [] \<Rightarrow> None
      | y # _ \<Rightarrow> Some (take (length s - length (fst y)) s, fst y))"

datatype piece = Lit char | Hit string

function matchAll :: "regex \<Rightarrow> string \<Rightarrow> string \<Rightarrow> piece list" where
  "matchAll rx inp s =
     (case match_here rx inp s of
        None \<Rightarrow> (case s of [] \<Rightarrow> [] | c # cs \<Rightarrow> Lit c # matchAll rx inp cs)
      | Some (m, rest) \<Rightarrow>
          if length rest < length s then Hit m # matchAll rx inp rest
          else (case s of [] \<Rightarrow> [Hit m] | c # cs \<Rightarrow> Hit m # Lit c # matchAll rx inp cs))"
  by pat_completeness auto
termination
  by (relation "measure (\<lambda>(rx, inp, s). length s)") auto

declare matchAll.simps [simp del]

text \<open>
  The replacer \<open>f\<close> is then called on each match in order, with the matched text. It may
  change state (the constructor's replacer pushes a name) and it may throw (the replacer
  of \<open>compile\<close> does), which ends the replacement. What it returns is put in place of
  the match as it is.
\<close>

fun replace_pieces ::
  "piece list \<Rightarrow> (string \<Rightarrow> 's \<Rightarrow> error + string \<times> 's) \<Rightarrow> 's \<Rightarrow> error + string \<times> 's" where
  "replace_pieces [] f st = Inr ([], st)"
| "replace_pieces (Lit c # ps) f st =
     (case replace_pieces ps f st of
        Inl e \<Rightarrow> Inl e
      | Inr (out, st') \<Rightarrow> Inr (c # out, st'))"
| "replace_pieces (Hit m # ps) f st =
     (case f m st of
        Inl e \<Rightarrow> Inl e
      | Inr (rep, st') \<Rightarrow>
          (case replace_pieces ps f st' of
             Inl e \<Rightarrow> Inl e
           | Inr (out, st'') \<Rightarrow> Inr (rep @ out, st'')))"

definition replaceAll ::
  "regex \<Rightarrow> string \<Rightarrow> (string \<Rightarrow> 's \<Rightarrow> error + string \<times> 's) \<Rightarrow> 's \<Rightarrow> error + string \<times> 's" where
  "replaceAll rx s f st = replace_pieces (matchAll rx s s) f st"

section \<open>The class \<open>Route\<close>\<close>

text \<open>
  The two constants of the module. \<open>PARAM_MATCHER\<close> is the pattern \<open>/\{([^{}]+)\}/g\<close>: an
  opening brace, capture group 1 with one or more characters that are not braces, a
  closing brace. It is given as the syntax tree that \<open>RegExp\<close> builds from the source
  text of the pattern.
\<close>

definition PARAM_MATCHER_source :: string where
  "PARAM_MATCHER_source = [CHR 0x5C] @ ''{([^{}]+)'' @ [CHR 0x5C] @ ''}''"

definition PARAM_MATCHER :: regex where
  "PARAM_MATCHER =
     Seq (Chr CHR ''{'')
       (Seq (Group 1 (Seq (Rep 1 None True
                            (Class True [(CHR ''{'', CHR ''{''), (CHR ''}'', CHR ''}'')])) Empty))
         (Seq (Chr CHR ''}'') Empty))"

definition PARAM_REGEX_STRING :: string where
  "PARAM_REGEX_STRING = ''([^/]+)''"

text \<open>
  The fields of a route. The type of the regular expression object is a parameter: the
  class is first written for any host, with \<open>new RegExp\<close> and \<open>exec\<close> as arguments, and
  then for the host modelled above.
\<close>

record 'rx route =
  format :: string
  paramNames :: "string list"
  isStatic :: bool
  regex :: 'rx

text \<open>
  The constructor. Its replacer pushes the name between the braces and returns
  \<open>PARAM_REGEX_STRING\<close>; the pattern is the result between \<open>^\<close> and \<open>$\<close>. When
  \<open>new RegExp\<close> throws, no route is constructed.
\<close>

definition Route_with :: "(string \<Rightarrow> error + 'rx) \<Rightarrow> string \<Rightarrow> error + 'rx route" where
  "Route_with newRegExp fmt =
     (case replaceAll PARAM_MATCHER fmt
             (\<lambda>matchedParam names.
                let paramName = slice matchedParam 1 (- 1)
                in Inr (PARAM_REGEX_STRING, names @ [paramName]))
             []
      of
        Inl e \<Rightarrow> Inl e
      | Inr (regexString, names) \<Rightarrow>
          (case newRegExp (''^'' @ regexString @ ''$'') of
             Inl e \<Rightarrow> Inl e
           | Inr rx \<Rightarrow>
               Inr \<lparr>format = fmt, paramNames = names,
                    isStatic = (length names = 0), regex = rx\<rparr>))"

definition Route :: "string \<Rightarrow> error + regexp route" where
  "Route fmt = Route_with new_RegExp fmt"

text \<open>
  The methods are written as the calls they are: each returns its result and the route
  as it is after the call. \<open>match\<close> is \<open>this.regex.test(path)\<close>; the only thing a method
  of the class does to the object is what the host's \<open>exec\<close> does to the regular
  expression object.
\<close>

definition match_with ::
  "('rx \<Rightarrow> string \<Rightarrow> jsval list option \<times> 'rx) \<Rightarrow> 'rx route \<Rightarrow> string \<Rightarrow> bool \<times> 'rx route" where
  "match_with hostExec r path =
     (case hostExec (regex r) path of (m, rx) \<Rightarrow> (m \<noteq> None, r\<lparr>regex := rx\<rparr>))"

definition match :: "regexp route \<Rightarrow> string \<Rightarrow> bool" where
  "match r path = fst (match_with regexp_exec r path)"

text \<open>
  \<open>parse\<close>. \<open>paramNames[i - 1]\<close> beyond the end of the array is \<open>undefined\<close>, and as a
  property key \<open>undefined\<close> is the string "undefined". The loop assigns to the properties
  of an object that starts as \<open>{}\<close>.
\<close>

definition prop_key :: "string list \<Rightarrow> nat \<Rightarrow> string" where
  "prop_key names j = (if j < length names then names ! j else ''undefined'')"

function parse_loop :: "string list \<Rightarrow> jsval list \<Rightarrow> nat \<Rightarrow> obj \<Rightarrow> obj" where
  "parse_loop names m i params =
     (if i < length m
      then parse_loop names m (Suc i) (set_prop params (prop_key names (i - 1)) (m ! i))
      else params)"
  by pat_completeness auto
termination
  by (relation "measure (\<lambda>(names, m, i, params). length m - i)") auto

declare parse_loop.simps [simp del]

definition parse_with ::
  "('rx \<Rightarrow> string \<Rightarrow> jsval list option \<times> 'rx) \<Rightarrow> 'rx route \<Rightarrow> string
     \<Rightarrow> obj option \<times> 'rx route" where
  "parse_with hostExec r path =
     (case hostExec (regex r) path of
        (None, rx) \<Rightarrow> (None, r\<lparr>regex := rx\<rparr>)
      | (Some m, rx) \<Rightarrow> (Some (parse_loop (paramNames r) m 1 Map.empty), r\<lparr>regex := rx\<rparr>))"

definition parse :: "regexp route \<Rightarrow> string \<Rightarrow> obj option" where
  "parse r path = fst (parse_with regexp_exec r path)"

text \<open>
  \<open>compile\<close>. The argument is \<open>None\<close> when \<open>params\<close> is omitted (\<open>undefined\<close>); an object,
  also one without properties, is truthy. The method reads the fields \<open>isStatic\<close> and
  \<open>format\<close> and assigns to nothing, so the route after the call is the route before it.
\<close>

definition compile :: "'rx route \<Rightarrow> obj option \<Rightarrow> error + string" where
  "compile r params =
     (if isStatic r then
        (case params of
           Some ps \<Rightarrow> Inl (Error (''expected no parameters for static url: '' @ format r))
         | None \<Rightarrow> Inr (format r))
      else
        (case params of
           None \<Rightarrow> Inl (Error (''expected parameters for non-static url: '' @ format r))
         | Some ps \<Rightarrow>
             (case replaceAll PARAM_MATCHER (format r)
                     (\<lambda>matchedParam u.
                        let paramName = slice matchedParam 1 (- 1)
                        in if \<not> truthy (get_prop ps paramName)
                           then Inl (Error (''expected {'' @ paramName
                                  @ ''} in parameters for url: '' @ format r))
                           else Inr (to_string (get_prop ps paramName), u))
                     ()
              of
                Inl e \<Rightarrow> Inl e
              | Inr (out, u) \<Rightarrow> Inr out)))"

definition compile_call :: "'rx route \<Rightarrow> obj option \<Rightarrow> (error + string) \<times> 'rx route" where
  "compile_call r params = (compile r params, r)"

text \<open>
  A route after a sequence of calls of its methods, whatever they return or throw.
\<close>

datatype call = Match string | Parse string | Compile "obj option"

fun after_with ::
  "('rx \<Rightarrow> string \<Rightarrow> jsval list option \<times> 'rx) \<Rightarrow> 'rx route \<Rightarrow> call list \<Rightarrow> 'rx route" where
  "after_with hostExec r [] = r"
| "after_with hostExec r (Match path # cs) =
     after_with hostExec (snd (match_with hostExec r path)) cs"
| "after_with hostExec r (Parse path # cs) =
     after_with hostExec (snd (parse_with hostExec r path)) cs"
| "after_with hostExec r (Compile params # cs) =
     after_with hostExec (snd (compile_call r params)) cs"

definition after :: "regexp route \<Rightarrow> call list \<Rightarrow> regexp route" where
  "after r cs = after_with regexp_exec r cs"

text \<open>
  The expressions \<open>new Route(fmt).match(path)\<close>, \<open>new Route(fmt).parse(path)\<close> and
  \<open>new Route(fmt).compile(params)\<close>: an error of the constructor is their error.
\<close>

definition new_match :: "string \<Rightarrow> string \<Rightarrow> error + bool" where
  "new_match fmt path = (case Route fmt of Inl e \<Rightarrow> Inl e | Inr r \<Rightarrow> Inr (match r path))"

definition new_parse :: "string \<Rightarrow> string \<Rightarrow> error + obj option" where
  "new_parse fmt path = (case Route fmt of Inl e \<Rightarrow> Inl e | Inr r \<Rightarrow> Inr (parse r path))"

definition new_compile :: "string \<Rightarrow> obj option \<Rightarrow> error + string" where
  "new_compile fmt params = (case Route fmt of Inl e \<Rightarrow> Inl e | Inr r \<Rightarrow> compile r params)"

section \<open>What the specification says, in terms of the template\<close>

text \<open>
  The specification speaks of the literal text and the placeholders of a template. These
  are the pieces into which \<open>replaceAll\<close> cuts the template with \<open>PARAM_MATCHER\<close>:
  \<open>Lit c\<close> is a literal character, \<open>Hit m\<close> the placeholder with the text \<open>m\<close>, braces
  included. The definitions of this section follow the specification's words; the
  theorems compare the code with them.
\<close>

definition pieces :: "string \<Rightarrow> piece list" where
  "pieces fmt = matchAll PARAM_MATCHER fmt fmt"

definition placeholder_names :: "piece list \<Rightarrow> string list" where
  "placeholder_names ps = concat (map (\<lambda>p. case p of Lit c \<Rightarrow> [] | Hit m \<Rightarrow> [slice m 1 (- 1)]) ps)"

definition literal_text :: "piece list \<Rightarrow> string" where
  "literal_text ps = concat (map (\<lambda>p. case p of Lit c \<Rightarrow> [c] | Hit m \<Rightarrow> []) ps)"

definition piece_text :: "piece list \<Rightarrow> string" where
  "piece_text ps = concat (map (\<lambda>p. case p of Lit c \<Rightarrow> [c] | Hit m \<Rightarrow> m) ps)"

text \<open>
  A segment for a placeholder is one or more characters, none of them \<open>/\<close>. A path
  conforms to a template when it is the template with each placeholder replaced by a
  segment; \<open>fill\<close> does the replacement, with one segment per placeholder, in order.
\<close>

definition segment :: "string \<Rightarrow> bool" where
  "segment s = (s \<noteq> [] \<and> CHR ''/'' \<notin> set s)"

fun fill :: "piece list \<Rightarrow> string list \<Rightarrow> string" where
  "fill [] segs = []"
| "fill (Lit c # ps) segs = c # fill ps segs"
| "fill (Hit m # ps) segs = (case segs of [] \<Rightarrow> fill ps [] | s # ss \<Rightarrow> s @ fill ps ss)"

fun conforms :: "piece list \<Rightarrow> string \<Rightarrow> bool" where
  "conforms [] path = (path = [])"
| "conforms (Lit c # ps) path = (case path of [] \<Rightarrow> False | d # ds \<Rightarrow> d = c \<and> conforms ps ds)"
| "conforms (Hit m # ps) path =
     (\<exists>k \<in> {1..length path}. segment (take k path) \<and> conforms ps (drop k path))"

text \<open>
  A template is plain when its literal text has none of the characters that
  \<open>new RegExp\<close> reads as pattern syntax wherever they stand: \<open>^ $ . * + ? ( ) [ |\<close>
  and the backslash. (A brace that \<open>PARAM_MATCHER\<close> leaves in the literal text never
  starts a quantifier \<open>{n}\<close>, \<open>{n,}\<close> or \<open>{n,m}\<close>, since such a text is a placeholder.)
\<close>

definition plain_char :: "char \<Rightarrow> bool" where
  "plain_char c = (c \<notin> set ''^$.*+?()[|'' \<and> c \<noteq> CHR 0x5C)"

definition plain :: "string \<Rightarrow> bool" where
  "plain fmt = list_all plain_char (literal_text (pieces fmt))"

text \<open>
  The pattern the specification describes for a template: between the two anchors, each
  literal character stands for itself and the \<open>i\<close>-th placeholder is capture group \<open>i\<close>,
  one or more characters other than \<open>/\<close>.
\<close>

definition segment_group :: "nat \<Rightarrow> regex" where
  "segment_group i = Group i (Seq (Rep 1 None True (Class True [(CHR ''/'', CHR ''/'')])) Empty)"

fun piece_terms :: "nat \<Rightarrow> piece list \<Rightarrow> regex list" where
  "piece_terms i [] = []"
| "piece_terms i (Lit c # ps) = Chr c # piece_terms i ps"
| "piece_terms i (Hit m # ps) = segment_group (Suc i) # piece_terms (Suc i) ps"

definition spec_pattern :: "piece list \<Rightarrow> regex" where
  "spec_pattern ps = foldr Seq (Bol # piece_terms 0 ps @ [Eol]) Empty"

text \<open>
  Placeholders are separated when the literal text between each placeholder and the next
  one has a \<open>/\<close>.
\<close>

fun separated :: "piece list \<Rightarrow> bool" where
  "separated [] = True"
| "separated (Lit c # ps) = separated ps"
| "separated (Hit m # ps) =
     ((placeholder_names ps = [] \<or> CHR ''/'' \<in> set (literal_text (takeWhile (\<lambda>p. case p of Lit c \<Rightarrow> True | Hit m \<Rightarrow> False) ps)))
      \<and> separated ps)"

text \<open>
  Auxiliary notions for the proofs. What \<open>PARAM_MATCHER\<close> matches at the head of a
  text, written out directly: the run of characters that are not braces is taken whole,
  since no shorter run is followed by a closing brace. Then the pattern text the
  constructor builds from the pieces, the tokens of that text, and the captures after the
  placeholders following group \<open>i\<close> have taken the given segments.
\<close>

definition brace :: "char \<Rightarrow> bool" where
  "brace c = (c = CHR ''{'' \<or> c = CHR ''}'')"

definition PARAM_MATCHER_at :: "string \<Rightarrow> (string \<times> string) option" where
  "PARAM_MATCHER_at s =
     (case s of
        [] \<Rightarrow> None
      | c # cs \<Rightarrow>
          if c \<noteq> CHR ''{'' then None
          else let name = takeWhile (\<lambda>d. \<not> brace d) cs;
                   rest = dropWhile (\<lambda>d. \<not> brace d) cs
               in if name = [] then None
                  else (case rest of
                          [] \<Rightarrow> None
                        | d # ds \<Rightarrow> if d = CHR ''}'' then Some (c # name @ [d], ds) else None))"

definition pattern_text :: "piece list \<Rightarrow> string" where
  "pattern_text ps = concat (map (\<lambda>p. case p of Lit c \<Rightarrow> [c] | Hit m \<Rightarrow> PARAM_REGEX_STRING) ps)"

definition piece_toks :: "piece list \<Rightarrow> tok list" where
  "piece_toks ps =
     concat (map (\<lambda>p. case p of
                         Lit c \<Rightarrow> [TChar c]
                       | Hit m \<Rightarrow> [TOpen True, TClass True [(CHR ''/'', CHR ''/'')],
                                   TRep 1 None True, TClose]) ps)"

fun seg_caps :: "caps \<Rightarrow> nat \<Rightarrow> string list \<Rightarrow> caps" where
  "seg_caps cp i [] = cp"
| "seg_caps cp i (s # ss) = seg_caps (cp(Suc i \<mapsto> s)) (Suc i) ss"

section \<open>Matching one or more characters outside a class\<close>

lemma clear_Nil: "clear [] cp = cp"
  by (simp add: clear_def)

lemma ms_Empty_fun: "ms Empty inp = (\<lambda>x. [x])"
  by (rule ext) simp

lemma ms_neg_class:
  "ms (Class True rs) inp (s, cp)
     = (case s of [] \<Rightarrow> [] | d # ds \<Rightarrow> if \<not> in_class rs d then [(ds, cp)] else [])"
  by (simp split: list.splits)

lemma ms_star_neg_class:
  "set (ms (Rep 0 None True (Class True rs)) inp (s, cp))
     = {(s', cp) | u s'. s = u @ s' \<and> (\<forall>c \<in> set u. \<not> in_class rs c)}"
proof (induction s)
  case Nil
  show ?case
    by (subst ms.simps(10)) (simp add: ms_neg_class clear_Nil del: ms.simps(4))
next
  case (Cons d ds)
  show ?case
  proof (cases "in_class rs d")
    case True
    have "set (ms (Rep 0 None True (Class True rs)) inp (d # ds, cp)) = {(d # ds, cp)}"
      using True by (subst ms.simps(10)) (simp add: ms_neg_class clear_Nil del: ms.simps(4))
    also have "\<dots> = {(s', cp) | u s'. d # ds = u @ s' \<and> (\<forall>c \<in> set u. \<not> in_class rs c)}"
      using True by (auto simp: Cons_eq_append_conv)
    finally show ?thesis .
  next
    case False
    have "set (ms (Rep 0 None True (Class True rs)) inp (d # ds, cp))
        = set (ms (Rep 0 None True (Class True rs)) inp (ds, cp)) \<union> {(d # ds, cp)}"
      using False
      by (subst ms.simps(10)) (simp add: ms_neg_class clear_Nil dec_max_def del: ms.simps(4))
    also have "\<dots> = {(s', cp) | u s'. ds = u @ s' \<and> (\<forall>c \<in> set u. \<not> in_class rs c)}
        \<union> {(d # ds, cp)}"
      by (simp only: Cons.IH)
    also have "\<dots> = {(s', cp) | u s'. d # ds = u @ s' \<and> (\<forall>c \<in> set u. \<not> in_class rs c)}"
      using False by (auto simp: Cons_eq_append_conv)
    finally show ?thesis .
  qed
qed

lemma ms_plus_neg_class:
  "set (ms (Rep 1 None True (Class True rs)) inp (s, cp))
     = {(s', cp) | u s'. s = u @ s' \<and> u \<noteq> [] \<and> (\<forall>c \<in> set u. \<not> in_class rs c)}"
proof (cases s)
  case Nil
  then show ?thesis
    by (subst ms.simps(10)) (simp add: ms_neg_class clear_Nil del: ms.simps(4))
next
  case (Cons d ds)
  show ?thesis
  proof (cases "in_class rs d")
    case True
    have "set (ms (Rep 1 None True (Class True rs)) inp (s, cp)) = {}"
      using True Cons by (subst ms.simps(10)) (simp add: ms_neg_class clear_Nil del: ms.simps(4))
    also have "\<dots> = {(s', cp) | u s'. s = u @ s' \<and> u \<noteq> [] \<and> (\<forall>c \<in> set u. \<not> in_class rs c)}"
      using True Cons by (auto simp: Cons_eq_append_conv)
    finally show ?thesis .
  next
    case False
    have "set (ms (Rep 1 None True (Class True rs)) inp (s, cp))
        = set (ms (Rep 0 None True (Class True rs)) inp (ds, cp))"
      using False Cons
      by (subst ms.simps(10)) (simp add: ms_neg_class clear_Nil dec_max_def del: ms.simps(4))
    also have "\<dots> = {(s', cp) | u s'. ds = u @ s' \<and> (\<forall>c \<in> set u. \<not> in_class rs c)}"
      by (rule ms_star_neg_class)
    also have "\<dots> = {(s', cp) | u s'. s = u @ s' \<and> u \<noteq> [] \<and> (\<forall>c \<in> set u. \<not> in_class rs c)}"
      using False Cons by (auto simp: Cons_eq_append_conv)
    finally show ?thesis .
  qed
qed

lemma ms_group_plus_neg_class:
  "set (ms (Group k (Seq (Rep 1 None True (Class True rs)) Empty)) inp (s, cp))
     = {(s', cp(k \<mapsto> u)) | u s'. s = u @ s' \<and> u \<noteq> [] \<and> (\<forall>c \<in> set u. \<not> in_class rs c)}"
proof -
  have "ms (Group k (Seq (Rep 1 None True (Class True rs)) Empty)) inp (s, cp)
      = map (\<lambda>y. (fst y, (snd y)(k \<mapsto> take (length s - length (fst y)) s)))
          (ms (Rep 1 None True (Class True rs)) inp (s, cp))"
    by (simp add: ms_Empty_fun del: ms.simps(1) ms.simps(4) One_nat_def)
  then have "set (ms (Group k (Seq (Rep 1 None True (Class True rs)) Empty)) inp (s, cp))
      = (\<lambda>y. (fst y, (snd y)(k \<mapsto> take (length s - length (fst y)) s)))
          ` {(s', cp) | u s'. s = u @ s' \<and> u \<noteq> [] \<and> (\<forall>c \<in> set u. \<not> in_class rs c)}"
    by (simp only: set_map ms_plus_neg_class)
  also have "\<dots> = {(s', cp(k \<mapsto> u)) | u s'. s = u @ s' \<and> u \<noteq> [] \<and> (\<forall>c \<in> set u. \<not> in_class rs c)}"
    by (auto simp: image_def)
  finally show ?thesis .
qed

section \<open>The placeholder pattern\<close>

lemma RegExp_PARAM_MATCHER: "RegExp PARAM_MATCHER_source = Inr PARAM_MATCHER"
  by code_simp

lemma in_class_braces: "in_class [(CHR ''{'', CHR ''{''), (CHR ''}'', CHR ''}'')] d = brace d"
proof -
  have "((of_char c :: nat) \<le> of_char d \<and> (of_char d :: nat) \<le> of_char c)
      = ((of_char d :: nat) = of_char c)" for c
    by auto
  then show ?thesis by (auto simp: brace_def simp del: of_char_Char)
qed

lemma first_occurrence_unique:
  "c \<notin> set xs \<Longrightarrow> c \<notin> set xs' \<Longrightarrow> xs @ c # ys = xs' @ c # ys' \<Longrightarrow> xs = xs'"
proof (induction xs arbitrary: xs')
  case Nil
  then show ?case by (cases xs') auto
next
  case (Cons x xs)
  then show ?case by (cases xs') auto
qed

lemma ms_PARAM_MATCHER:
  "set (ms PARAM_MATCHER inp (s, cp))
     = {(s', cp(1 \<mapsto> u)) | u s'. s = CHR ''{'' # u @ CHR ''}'' # s' \<and> u \<noteq> [] \<and>
          (\<forall>c \<in> set u. \<not> brace c)}"
proof -
  define G where "G = Group 1 (Seq (Rep 1 None True
              (Class True [(CHR ''{'', CHR ''{''), (CHR ''}'', CHR ''}'')])) Empty)"
  define C where "C = Seq (Chr CHR ''}'') Empty"
  have pm: "PARAM_MATCHER = Seq (Chr CHR ''{'') (Seq G C)"
    by (simp add: PARAM_MATCHER_def G_def C_def)
  have op: "ms (Chr CHR ''{'') inp (s, cp)
      = (case s of [] \<Rightarrow> [] | d # ds \<Rightarrow> if d = CHR ''{'' then [(ds, cp)] else [])"
    by (simp split: list.splits)
  have cl: "set (ms C inp (t, cq)) = {(s', cq) | s'. t = CHR ''}'' # s'}" for t cq
    by (auto simp: C_def split: list.splits)
  have gr: "set (ms G inp (t, cq))
      = {(s', cq(1 \<mapsto> u)) | u s'. t = u @ s' \<and> u \<noteq> [] \<and> (\<forall>c \<in> set u. \<not> brace c)}" for t cq
    unfolding G_def by (simp only: ms_group_plus_neg_class in_class_braces)
  have "set (ms PARAM_MATCHER inp (s, cp))
      = (\<Union>x \<in> set (ms (Chr CHR ''{'') inp (s, cp)). \<Union>y \<in> set (ms G inp x). set (ms C inp y))"
    unfolding pm by (simp del: ms.simps(2))
  also have "\<dots> = {(s', cp(1 \<mapsto> u)) | u s'. s = CHR ''{'' # u @ CHR ''}'' # s' \<and> u \<noteq> [] \<and>
          (\<forall>c \<in> set u. \<not> brace c)}" (is "?L = ?R")
  proof (rule set_eqI, rule iffI)
    fix z assume "z \<in> ?L"
    then obtain x y where x: "x \<in> set (ms (Chr CHR ''{'') inp (s, cp))"
      and y: "y \<in> set (ms G inp x)" and z: "z \<in> set (ms C inp y)"
      by blast
    from x obtain ds where s: "s = CHR ''{'' # ds" and x': "x = (ds, cp)"
      unfolding op by (auto split: list.splits if_splits)
    from y x' have "y \<in> set (ms G inp (ds, cp))" by simp
    then obtain u s1 where y': "y = (s1, cp(1 \<mapsto> u))" and ds: "ds = u @ s1"
      and u: "u \<noteq> []" "\<forall>c \<in> set u. \<not> brace c"
      unfolding gr by blast
    from z y' have "z \<in> set (ms C inp (s1, cp(1 \<mapsto> u)))" by simp
    then obtain s' where "z = (s', cp(1 \<mapsto> u))" "s1 = CHR ''}'' # s'"
      unfolding cl by blast
    with s ds u show "z \<in> ?R" by auto
  next
    fix z assume "z \<in> ?R"
    then obtain u s' where z: "z = (s', cp(1 \<mapsto> u))" and s: "s = CHR ''{'' # u @ CHR ''}'' # s'"
      and u: "u \<noteq> []" "\<forall>c \<in> set u. \<not> brace c"
      by blast
    have "(u @ CHR ''}'' # s', cp) \<in> set (ms (Chr CHR ''{'') inp (s, cp))"
      unfolding op using s by simp
    moreover have "(CHR ''}'' # s', cp(1 \<mapsto> u)) \<in> set (ms G inp (u @ CHR ''}'' # s', cp))"
      unfolding gr using u by blast
    moreover have "z \<in> set (ms C inp (CHR ''}'' # s', cp(1 \<mapsto> u)))"
      unfolding cl using z by blast
    ultimately show "z \<in> ?L" by blast
  qed
  finally show ?thesis .
qed

lemma PARAM_MATCHER_at_Some:
  assumes "PARAM_MATCHER_at s = Some (m, rest)"
  shows "\<exists>n. m = CHR ''{'' # n @ ''}'' \<and> n \<noteq> [] \<and> (\<forall>c \<in> set n. \<not> brace c) \<and> s = m @ rest"
proof -
  from assms obtain cs where s: "s = CHR ''{'' # cs"
    by (cases s) (auto simp: PARAM_MATCHER_at_def split: if_splits)
  let ?n = "takeWhile (\<lambda>d. \<not> brace d) cs"
  let ?r = "dropWhile (\<lambda>d. \<not> brace d) cs"
  from assms s have ne: "?n \<noteq> []" and r: "?r = CHR ''}'' # rest" and m: "m = CHR ''{'' # ?n @ ''}''"
    by (auto simp: PARAM_MATCHER_at_def Let_def split: if_splits list.splits)
  have "cs = ?n @ ?r" by simp
  with r have "cs = ?n @ CHR ''}'' # rest" by simp
  with s m have "s = m @ rest" by simp
  moreover have "\<forall>c \<in> set ?n. \<not> brace c" by (auto dest: set_takeWhileD)
  ultimately show ?thesis using ne m by blast
qed

lemma PARAM_MATCHER_at_shorter:
  "PARAM_MATCHER_at s = Some (m, rest) \<Longrightarrow> length rest < length s"
  by (auto dest: PARAM_MATCHER_at_Some)

lemma PARAM_MATCHER_at_intro:
  assumes "u \<noteq> []" and "\<forall>c \<in> set u. \<not> brace c"
  shows "PARAM_MATCHER_at (CHR ''{'' # u @ CHR ''}'' # s') = Some (CHR ''{'' # u @ ''}'', s')"
proof -
  have "takeWhile (\<lambda>d. \<not> brace d) (u @ CHR ''}'' # s') = u"
    using assms(2) by (simp add: brace_def)
  moreover have "dropWhile (\<lambda>d. \<not> brace d) (u @ CHR ''}'' # s') = CHR ''}'' # s'"
    using assms(2) by (simp add: brace_def)
  ultimately show ?thesis
    using assms(1) by (simp add: PARAM_MATCHER_at_def)
qed

lemma match_here_PARAM_MATCHER: "match_here PARAM_MATCHER inp s = PARAM_MATCHER_at s"
proof (cases "ms PARAM_MATCHER inp (s, \<lambda>_. None)")
  case Nil
  have "PARAM_MATCHER_at s = None"
  proof (rule ccontr)
    assume "PARAM_MATCHER_at s \<noteq> None"
    then obtain m rest where "PARAM_MATCHER_at s = Some (m, rest)" by auto
    from PARAM_MATCHER_at_Some[OF this] obtain n where
      "s = CHR ''{'' # n @ CHR ''}'' # rest" "n \<noteq> []" "\<forall>c \<in> set n. \<not> brace c"
      by auto
    then have "(rest, (\<lambda>_. None)(1 \<mapsto> n)) \<in> set (ms PARAM_MATCHER inp (s, \<lambda>_. None))"
      unfolding ms_PARAM_MATCHER by blast
    with Nil show False by simp
  qed
  with Nil show ?thesis by (simp add: match_here_def)
next
  case (Cons y ys)
  then have "y \<in> set (ms PARAM_MATCHER inp (s, \<lambda>_. None))" by simp
  then obtain u s' where y: "fst y = s'" and s: "s = CHR ''{'' # u @ CHR ''}'' # s'"
    and u: "u \<noteq> []" "\<forall>c \<in> set u. \<not> brace c"
    unfolding ms_PARAM_MATCHER by auto
  from Cons y s have "match_here PARAM_MATCHER inp s = Some (CHR ''{'' # u @ ''}'', s')"
    by (simp add: match_here_def)
  with PARAM_MATCHER_at_intro[OF u, of s'] s show ?thesis by simp
qed

lemma matchAll_PARAM_MATCHER:
  "matchAll PARAM_MATCHER inp s =
     (case s of
        [] \<Rightarrow> []
      | c # cs \<Rightarrow>
          (case PARAM_MATCHER_at (c # cs) of
             None \<Rightarrow> Lit c # matchAll PARAM_MATCHER inp cs
           | Some (m, rest) \<Rightarrow> Hit m # matchAll PARAM_MATCHER inp rest))"
proof (cases s)
  case Nil
  then show ?thesis
    by (subst matchAll.simps) (simp add: match_here_PARAM_MATCHER PARAM_MATCHER_at_def)
next
  case (Cons c cs)
  show ?thesis
  proof (cases "PARAM_MATCHER_at s")
    case None
    with Cons show ?thesis
      by (subst matchAll.simps) (simp add: match_here_PARAM_MATCHER)
  next
    case (Some x)
    obtain m rest where x: "x = (m, rest)" by (cases x)
    from PARAM_MATCHER_at_shorter[of s m rest] Some x have "length rest < length s" by simp
    with Some x Cons show ?thesis
      by (subst matchAll.simps) (simp add: match_here_PARAM_MATCHER)
  qed
qed

lemma matchAll_PARAM_MATCHER_input:
  "matchAll PARAM_MATCHER inp s = matchAll PARAM_MATCHER inp' s"
proof (induction "length s" arbitrary: s rule: less_induct)
  case less
  show ?case
  proof (cases s)
    case Nil
    then show ?thesis by (simp add: matchAll_PARAM_MATCHER[of _ "[]"])
  next
    case (Cons c cs)
    show ?thesis
    proof (cases "PARAM_MATCHER_at s")
      case None
      from less[of cs] Cons have "matchAll PARAM_MATCHER inp cs = matchAll PARAM_MATCHER inp' cs"
        by simp
      with None Cons show ?thesis
        by (simp add: matchAll_PARAM_MATCHER[of _ "c # cs"])
    next
      case (Some x)
      obtain m rest where x: "x = (m, rest)" by (cases x)
      from PARAM_MATCHER_at_shorter[of s m rest] Some x have "length rest < length s" by simp
      from less[OF this] have "matchAll PARAM_MATCHER inp rest = matchAll PARAM_MATCHER inp' rest" .
      with Some x Cons show ?thesis
        by (simp add: matchAll_PARAM_MATCHER[of _ "c # cs"])
    qed
  qed
qed

lemma pieces_simps:
  "pieces [] = []"
  "pieces (c # cs) =
     (case PARAM_MATCHER_at (c # cs) of
        None \<Rightarrow> Lit c # pieces cs
      | Some (m, rest) \<Rightarrow> Hit m # pieces rest)"
proof -
  show "pieces [] = []"
    by (simp add: pieces_def matchAll_PARAM_MATCHER[of _ "[]"])
  have e: "matchAll PARAM_MATCHER (c # cs) t = pieces t" for t
    unfolding pieces_def by (rule matchAll_PARAM_MATCHER_input)
  have "pieces (c # cs) = matchAll PARAM_MATCHER (c # cs) (c # cs)"
    by (simp only: pieces_def)
  also have "\<dots> =
     (case PARAM_MATCHER_at (c # cs) of
        None \<Rightarrow> Lit c # matchAll PARAM_MATCHER (c # cs) cs
      | Some (m, rest) \<Rightarrow> Hit m # matchAll PARAM_MATCHER (c # cs) rest)"
    by (simp only: matchAll_PARAM_MATCHER[of "c # cs" "c # cs"] list.case)
  also have "\<dots> =
     (case PARAM_MATCHER_at (c # cs) of
        None \<Rightarrow> Lit c # pieces cs
      | Some (m, rest) \<Rightarrow> Hit m # pieces rest)"
    by (simp only: e)
  finally show "pieces (c # cs) =
     (case PARAM_MATCHER_at (c # cs) of
        None \<Rightarrow> Lit c # pieces cs
      | Some (m, rest) \<Rightarrow> Hit m # pieces rest)" .
qed

lemma pieces_induct [case_names Nil Cons]:
  assumes "P []"
    and "\<And>c cs. (PARAM_MATCHER_at (c # cs) = None \<Longrightarrow> P cs) \<Longrightarrow>
          (\<And>m rest. PARAM_MATCHER_at (c # cs) = Some (m, rest) \<Longrightarrow> P rest) \<Longrightarrow> P (c # cs)"
  shows "P s"
proof (induction "length s" arbitrary: s rule: less_induct)
  case less
  show ?case
  proof (cases s)
    case Nil
    with assms(1) show ?thesis by simp
  next
    case (Cons c cs)
    have "P cs" using less[of cs] Cons by simp
    moreover have "P rest" if "PARAM_MATCHER_at (c # cs) = Some (m, rest)" for m rest
      using less[of rest] PARAM_MATCHER_at_shorter[OF that] Cons by simp
    ultimately show ?thesis using assms(2)[of c cs] Cons by blast
  qed
qed

lemma replaceAll_PARAM_MATCHER:
  "replaceAll PARAM_MATCHER s f st = replace_pieces (pieces s) f st"
  by (simp add: replaceAll_def pieces_def)

section \<open>Facts about the pieces, the constructor and \<open>compile\<close>\<close>

lemma slice_braces: "slice (CHR ''{'' # n @ ''}'') 1 (- 1) = n"
  by (simp add: slice_def Let_def)

lemma piece_text_pieces: "piece_text (pieces s) = s"
proof (induction s rule: pieces_induct)
  case Nil
  show ?case by (simp add: piece_text_def pieces_simps)
next
  case (Cons c cs)
  show ?case
  proof (cases "PARAM_MATCHER_at (c # cs)")
    case None
    with Cons(1) show ?thesis by (simp add: piece_text_def pieces_simps)
  next
    case (Some x)
    obtain m rest where x: "x = (m, rest)" by (cases x)
    from PARAM_MATCHER_at_Some[of "c # cs" m rest] Some x have eq: "m @ rest = c # cs" by auto
    from Some x have "pieces (c # cs) = Hit m # pieces rest" by (simp add: pieces_simps)
    then have "piece_text (pieces (c # cs)) = m @ piece_text (pieces rest)"
      by (simp add: piece_text_def)
    also from Cons(2)[of m rest] Some x have "\<dots> = m @ rest" by simp
    finally show ?thesis using eq by simp
  qed
qed

lemma Hit_pieces:
  "Hit m \<in> set (pieces s) \<Longrightarrow> \<exists>n. m = CHR ''{'' # n @ ''}'' \<and> n \<noteq> [] \<and> (\<forall>c \<in> set n. \<not> brace c)"
proof (induction s rule: pieces_induct)
  case Nil
  then show ?case by (simp add: pieces_simps)
next
  case (Cons c cs)
  show ?case
  proof (cases "PARAM_MATCHER_at (c # cs)")
    case None
    with Cons show ?thesis by (simp add: pieces_simps)
  next
    case (Some x)
    obtain m' rest where x: "x = (m', rest)" by (cases x)
    from Cons.prems Some x have "m = m' \<or> Hit m \<in> set (pieces rest)"
      by (auto simp: pieces_simps)
    then show ?thesis
    proof
      assume "m = m'"
      with PARAM_MATCHER_at_Some[of "c # cs" m' rest] Some x show ?thesis by auto
    next
      assume "Hit m \<in> set (pieces rest)"
      with Cons(2)[of m' rest] Some x show ?thesis by simp
    qed
  qed
qed

lemma replace_pieces_constructor:
  "replace_pieces ps
     (\<lambda>matchedParam names. Inr (PARAM_REGEX_STRING, names @ [slice matchedParam 1 (- 1)])) names0
   = Inr (pattern_text ps, names0 @ placeholder_names ps)"
proof (induction ps arbitrary: names0)
  case Nil
  show ?case by (simp add: pattern_text_def placeholder_names_def)
next
  case (Cons p ps)
  show ?case
    by (cases p) (simp_all add: Cons.IH pattern_text_def placeholder_names_def)
qed

lemma Route_with_unfold:
  "Route_with newRegExp fmt =
     (case newRegExp (''^'' @ pattern_text (pieces fmt) @ ''$'') of
        Inl e \<Rightarrow> Inl e
      | Inr rx \<Rightarrow>
          Inr \<lparr>format = fmt, paramNames = placeholder_names (pieces fmt),
               isStatic = (placeholder_names (pieces fmt) = []), regex = rx\<rparr>)"
  by (simp add: Route_with_def replaceAll_PARAM_MATCHER replace_pieces_constructor
        split: sum.splits)

lemma Route_with_fields:
  assumes "Route_with newRegExp fmt = Inr r"
  shows "format r = fmt" and "paramNames r = placeholder_names (pieces fmt)"
    and "isStatic r = (paramNames r = [])"
    and "newRegExp (''^'' @ pattern_text (pieces fmt) @ ''$'') = Inr (regex r)"
  using assms by (auto simp: Route_with_unfold split: sum.splits)

lemma Route_unfold:
  "Route fmt =
     (case RegExp (''^'' @ pattern_text (pieces fmt) @ ''$'') of
        Inl e \<Rightarrow> Inl e
      | Inr t \<Rightarrow>
          Inr \<lparr>format = fmt, paramNames = placeholder_names (pieces fmt),
               isStatic = (placeholder_names (pieces fmt) = []),
               regex = \<lparr>ast = t, global = False, lastIndex = 0\<rparr>\<rparr>)"
  by (simp add: Route_def Route_with_unfold new_RegExp_def split: sum.splits)

lemma Route_fields:
  assumes "Route fmt = Inr r"
  shows "format r = fmt" and "paramNames r = placeholder_names (pieces fmt)"
    and "isStatic r = (paramNames r = [])"
    and "RegExp (''^'' @ pattern_text (pieces fmt) @ ''$'') = Inr (ast (regex r))"
    and "\<not> global (regex r)"
  using assms by (auto simp: Route_unfold split: sum.splits)

lemma regexp_exec_flagless: "\<not> global rx \<Longrightarrow> regexp_exec rx inp = (exec (ast rx) inp, rx)"
  by (auto simp: regexp_exec_def exec_def split: option.splits)

lemma match_flagless: "\<not> global (regex r) \<Longrightarrow> match r path = test (ast (regex r)) path"
  by (simp add: match_def match_with_def regexp_exec_flagless test_def)

lemma parse_flagless:
  "\<not> global (regex r) \<Longrightarrow>
   parse r path =
     (case exec (ast (regex r)) path of
        None \<Rightarrow> None
      | Some m \<Rightarrow> Some (parse_loop (paramNames r) m 1 Map.empty))"
  by (simp add: parse_def parse_with_def regexp_exec_flagless split: option.splits)

lemma match_with_unchanged:
  "snd (hostExec (regex r) path) = regex r \<Longrightarrow> snd (match_with hostExec r path) = r"
  by (cases "hostExec (regex r) path") (simp add: match_with_def)

lemma parse_with_unchanged:
  "snd (hostExec (regex r) path) = regex r \<Longrightarrow> snd (parse_with hostExec r path) = r"
  by (cases "hostExec (regex r) path") (simp add: parse_with_def split: option.splits)

lemma after_with_unchanged:
  "(\<And>path. snd (hostExec (regex r) path) = regex r) \<Longrightarrow> after_with hostExec r cs = r"
proof (induction cs)
  case Nil
  show ?case by simp
next
  case (Cons c cs)
  then show ?case
    by (cases c) (simp_all add: match_with_unchanged parse_with_unchanged compile_call_def)
qed

lemma after_with_fields:
  "format (after_with hostExec r cs) = format r \<and>
   paramNames (after_with hostExec r cs) = paramNames r \<and>
   isStatic (after_with hostExec r cs) = isStatic r"
proof (induction cs arbitrary: r)
  case Nil
  show ?case by simp
next
  case (Cons c cs)
  show ?case
    by (cases c)
       (simp_all add: Cons.IH match_with_def parse_with_def compile_call_def
          split: prod.splits option.splits)
qed

lemma after_Route:
  assumes "Route fmt = Inr r"
  shows "after r cs = r"
  unfolding after_def
  by (rule after_with_unchanged) (simp add: regexp_exec_flagless Route_fields(5)[OF assms])

lemma replace_pieces_compile:
  "replace_pieces ps
     (\<lambda>matchedParam u.
        if \<not> truthy (get_prop vals (slice matchedParam 1 (- 1)))
        then Inl (Error (''expected {'' @ slice matchedParam 1 (- 1)
               @ ''} in parameters for url: '' @ fmt))
        else Inr (to_string (get_prop vals (slice matchedParam 1 (- 1))), u)) u0
   = (case find (\<lambda>n. \<not> truthy (get_prop vals n)) (placeholder_names ps) of
        Some n \<Rightarrow> Inl (Error (''expected {'' @ n @ ''} in parameters for url: '' @ fmt))
      | None \<Rightarrow>
          Inr (fill ps (map (\<lambda>n. to_string (get_prop vals n)) (placeholder_names ps)), u0))"
proof (induction ps)
  case Nil
  show ?case by (simp add: placeholder_names_def)
next
  case (Cons p ps)
  show ?case
  proof (cases p)
    case (Lit c)
    with Cons.IH show ?thesis
      by (simp add: placeholder_names_def split: option.splits)
  next
    case (Hit m)
    with Cons.IH show ?thesis
      by (simp add: placeholder_names_def split: option.splits)
  qed
qed

lemma compile_dynamic:
  assumes "Route_with newRegExp fmt = Inr r" and "\<not> isStatic r"
  shows "compile r (Some vals) =
     (case find (\<lambda>n. \<not> truthy (get_prop vals n)) (paramNames r) of
        Some n \<Rightarrow> Inl (Error (''expected {'' @ n @ ''} in parameters for url: '' @ fmt))
      | None \<Rightarrow> Inr (fill (pieces fmt) (map (\<lambda>n. to_string (get_prop vals n)) (paramNames r))))"
  using assms(2)
  unfolding compile_def replaceAll_PARAM_MATCHER Let_def Route_with_fields(1)[OF assms(1)]
    Route_with_fields(2)[OF assms(1)] replace_pieces_compile
  by (simp split: option.splits)

lemma falsy_iff:
  "(\<not> truthy (get_prop params n)) =
     (params n = None \<and> inherited n = Undefined \<or> params n = Some Undefined \<or>
      params n = Some (Str []))"
  by (auto simp: truthy_def get_prop_def inherited_def split: option.splits jsval.splits)

text \<open>
  When some placeholder has no truthy value under its name, \<open>compile\<close> throws, and the
  error names the first such placeholder of the template.
\<close>

lemma compile_first_falsy:
  assumes "Route_with newRegExp fmt = Inr r"
    and "n \<in> set (paramNames r)" and "\<not> truthy (get_prop params n)"
  shows "\<exists>i < length (paramNames r).
     \<not> truthy (get_prop params (paramNames r ! i)) \<and>
     (\<forall>j < i. truthy (get_prop params (paramNames r ! j))) \<and>
     compile r (Some params)
       = Inl (Error (''expected {'' @ paramNames r ! i @ ''} in parameters for url: '' @ fmt))"
proof -
  from assms(2) Route_with_fields(3)[OF assms(1)] have dyn: "\<not> isStatic r" by auto
  from assms(2,3) obtain n0 where
    f: "find (\<lambda>n. \<not> truthy (get_prop params n)) (paramNames r) = Some n0"
    by (cases "find (\<lambda>n. \<not> truthy (get_prop params n)) (paramNames r)")
       (auto simp: find_None_iff)
  then obtain i where i: "i < length (paramNames r)"
      "\<not> truthy (get_prop params (paramNames r ! i))" "n0 = paramNames r ! i"
      "\<forall>j < i. \<not> \<not> truthy (get_prop params (paramNames r ! j))"
    unfolding find_Some_iff by blast
  from compile_dynamic[OF assms(1) dyn, of params] f i(3)
  have "compile r (Some params)
       = Inl (Error (''expected {'' @ paramNames r ! i @ ''} in parameters for url: '' @ fmt))"
    by simp
  with i show ?thesis by blast
qed

section \<open>Placeholders named like properties of \<open>Object.prototype\<close>\<close>

text \<open>
  What the prototype chain does to \<open>parse\<close> and \<open>compile\<close>. For the template
  \<open>/{__proto__}\<close>, \<open>parse\<close> of \<open>/abc\<close> is the empty object: the assignment went to the
  inherited setter. \<open>compile\<close> with the empty object reads the prototype under that
  name and throws nothing; with an own property \<open>__proto__\<close> it substitutes the property.
  For \<open>/{constructor}\<close>, \<open>compile({})\<close> substitutes the inherited function, while \<open>parse\<close>
  makes an own property, since \<open>constructor\<close> is an ordinary property of the prototype.
\<close>

lemma parse_proto_name: "new_parse ''/{__proto__}'' ''/abc'' = Inr (Some Map.empty)"
proof -
  have "case Route ''/{__proto__}'' of Inl e \<Rightarrow> False
        | Inr r \<Rightarrow> paramNames r = [''__proto__''] \<and>
            exec (ast (regex r)) ''/abc'' = Some [Str ''/abc'', Str ''abc'']"
    by code_simp
  then obtain r where r: "Route ''/{__proto__}'' = Inr r" "paramNames r = [''__proto__'']"
    "exec (ast (regex r)) ''/abc'' = Some [Str ''/abc'', Str ''abc'']"
    by (auto split: sum.splits)
  have "parse_loop [''__proto__''] [Str ''/abc'', Str ''abc''] 1 Map.empty = Map.empty"
    by (simp add: parse_loop.simps prop_key_def set_prop_def)
  with r show ?thesis
    by (simp add: new_parse_def parse_flagless[OF Route_fields(5)[OF r(1)]])
qed

lemma compile_proto_name:
  "new_compile ''/{__proto__}'' (Some Map.empty) = Inr ''/[object Object]'' \<and>
   new_compile ''/{__proto__}'' (Some [''__proto__'' \<mapsto> Str ''abc'']) = Inr ''/abc''"
  by code_simp

lemma compile_constructor_name:
  "new_compile ''/{constructor}'' (Some Map.empty)
     = Inr (''/'' @ to_string (Builtin ''constructor''))"
  by code_simp

lemma parse_constructor_name:
  "new_parse ''/{constructor}'' ''/abc'' = Inr (Some [''constructor'' \<mapsto> Str ''abc''])"
proof -
  have "case Route ''/{constructor}'' of Inl e \<Rightarrow> False
        | Inr r \<Rightarrow> paramNames r = [''constructor''] \<and>
            exec (ast (regex r)) ''/abc'' = Some [Str ''/abc'', Str ''abc'']"
    by code_simp
  then obtain r where r: "Route ''/{constructor}'' = Inr r" "paramNames r = [''constructor'']"
    "exec (ast (regex r)) ''/abc'' = Some [Str ''/abc'', Str ''abc'']"
    by (auto split: sum.splits)
  have "parse_loop [''constructor''] [Str ''/abc'', Str ''abc''] 1 Map.empty
      = [''constructor'' \<mapsto> Str ''abc'']"
    by (simp add: parse_loop.simps prop_key_def set_prop_def)
  with r show ?thesis
    by (simp add: new_parse_def parse_flagless[OF Route_fields(5)[OF r(1)]])
qed

section \<open>Errors of \<open>compile\<close>\<close>

text \<open>
  Claim C5, as amended: for every static route, \<open>compile\<close> without an argument returns
  \<open>format\<close> unchanged, and \<open>compile\<close> with any mapping, also the empty one, fails with
  the "unexpected parameters" error that names \<open>format\<close>.
\<close>

theorem compile_static_route:
  assumes "Route fmt = Inr r" and "isStatic r"
  shows "compile r None = Inr fmt \<and>
    compile r (Some params) = Inl (Error (''expected no parameters for static url: '' @ fmt))"
  using assms(2) Route_fields(1)[OF assms(1)] by (simp add: compile_def)

theorem compile_static_route_witness:
  "\<exists>r. Route ''/foo'' = Inr r \<and> isStatic r \<and> compile r None = Inr ''/foo'' \<and>
     compile r (Some [''foo'' \<mapsto> Str ''bar''])
       = Inl (Error (''expected no parameters for static url: '' @ ''/foo''))"
proof -
  have "case Route ''/foo'' of Inl e \<Rightarrow> False | Inr r \<Rightarrow> isStatic r"
    by code_simp
  then obtain r where r: "Route ''/foo'' = Inr r" "isStatic r"
    by (auto split: sum.splits)
  from compile_static_route[OF r, of "[''foo'' \<mapsto> Str ''bar'']"] r show ?thesis
    by blast
qed

text \<open>
  Claim C5 as stated fails: on the static route \<open>/foo\<close>, \<open>compile({})\<close> does not return
  \<open>/foo\<close> but throws.
\<close>

theorem compile_static_empty_mapping_counterexample:
  "new_compile ''/foo'' (Some Map.empty)
     = Inl (Error ''expected no parameters for static url: /foo'')"
  by code_simp

text \<open>
  Claim C6, as amended: for every dynamic route, \<open>compile\<close> without an argument fails
  with the "missing parameters" error that names \<open>format\<close>. \<open>compile({})\<close> fails with the
  "missing named parameter" error that names the first placeholder of the template and
  \<open>format\<close>, when the name of that placeholder is not the name of a property of
  \<open>Object.prototype\<close>. This holds whatever the host's \<open>new RegExp\<close> makes of the pattern.
\<close>

theorem compile_dynamic_without_parameters:
  assumes "Route_with newRegExp fmt = Inr r" and "\<not> isStatic r"
  shows "compile r None = Inl (Error (''expected parameters for non-static url: '' @ fmt)) \<and>
    (\<exists>n ns. paramNames r = n # ns \<and>
       (inherited n = Undefined \<longrightarrow>
          compile r (Some Map.empty)
            = Inl (Error (''expected {'' @ n @ ''} in parameters for url: '' @ fmt))))"
proof
  from assms(2) Route_with_fields(1)[OF assms(1)]
  show "compile r None = Inl (Error (''expected parameters for non-static url: '' @ fmt))"
    by (simp add: compile_def)
next
  from assms(2) Route_with_fields(3)[OF assms(1)] obtain n ns where ns: "paramNames r = n # ns"
    by (cases "paramNames r") auto
  have "compile r (Some Map.empty)
       = Inl (Error (''expected {'' @ n @ ''} in parameters for url: '' @ fmt))"
    if "inherited n = Undefined"
  proof -
    from that have "\<not> truthy (get_prop Map.empty n)"
      by (simp add: falsy_iff)
    with ns have "find (\<lambda>n. \<not> truthy (get_prop Map.empty n)) (paramNames r) = Some n"
      by simp
    with compile_dynamic[OF assms, of Map.empty] show ?thesis
      by simp
  qed
  with ns
  show "\<exists>n ns. paramNames r = n # ns \<and>
       (inherited n = Undefined \<longrightarrow>
          compile r (Some Map.empty)
            = Inl (Error (''expected {'' @ n @ ''} in parameters for url: '' @ fmt)))"
    by blast
qed

theorem compile_dynamic_without_parameters_witness:
  "\<exists>r. Route_with new_RegExp ''/foo/{bar}/{baz}'' = Inr r \<and> \<not> isStatic r \<and>
     compile r None
       = Inl (Error (''expected parameters for non-static url: '' @ ''/foo/{bar}/{baz}'')) \<and>
     paramNames r = [''bar'', ''baz''] \<and> inherited ''bar'' = Undefined \<and>
     compile r (Some Map.empty)
       = Inl (Error (''expected {'' @ ''bar'' @ ''} in parameters for url: ''
                @ ''/foo/{bar}/{baz}''))"
proof -
  have "case Route_with new_RegExp ''/foo/{bar}/{baz}'' of Inl e \<Rightarrow> False
        | Inr r \<Rightarrow> \<not> isStatic r \<and> paramNames r = [''bar'', ''baz'']"
    by code_simp
  then obtain r where r: "Route_with new_RegExp ''/foo/{bar}/{baz}'' = Inr r" "\<not> isStatic r"
    "paramNames r = [''bar'', ''baz'']"
    by (auto split: sum.splits)
  have i: "inherited ''bar'' = Undefined"
    by code_simp
  from compile_dynamic_without_parameters[OF r(1,2)] r i show ?thesis
    by auto
qed

text \<open>
  Claim C6 as stated fails: on the dynamic route \<open>/foo/{bar}\<close>, \<open>compile({})\<close> does not
  throw the "missing parameters" error but the one that names \<open>bar\<close>.
\<close>

theorem compile_dynamic_empty_mapping_counterexample:
  "new_compile ''/foo/{bar}'' (Some Map.empty)
     = Inl (Error ''expected {bar} in parameters for url: /foo/{bar}'') \<and>
   new_compile ''/foo/{bar}'' (Some Map.empty)
     \<noteq> Inl (Error ''expected parameters for non-static url: /foo/{bar}'')"
  by code_simp

text \<open>
  Claim C7 says that \<open>compile\<close> throws the "missing named parameter" error whenever a
  placeholder name is absent from the mapping. The code tests \<open>!params[paramName]\<close>,
  and for a name that \<open>Object.prototype\<close> has, the test finds the inherited property:
  nothing is thrown and the inherited value is substituted. For the template
  \<open>/{a}/{toString}\<close> and the mapping \<open>{a: 'x'}\<close>, in which \<open>toString\<close> is absent, \<open>compile\<close>
  returns \<open>/x/\<close> followed by the text of the built-in function; for \<open>/{a}/{__proto__}\<close>
  it returns \<open>/x/[object Object]\<close>. (For every other absent name the error is thrown:
  lemma \<open>compile_first_falsy\<close> with \<open>falsy_iff\<close>.)
\<close>

theorem compile_substitutes_inherited_property:
  "[''a'' \<mapsto> Str ''x''] ''toString'' = None \<and>
   new_compile ''/{a}/{toString}'' (Some [''a'' \<mapsto> Str ''x''])
     = Inr (''/x/'' @ to_string (Builtin ''toString'')) \<and>
   new_compile ''/{a}/{toString}'' (Some [''a'' \<mapsto> Str ''x''])
     \<noteq> Inl (Error ''expected {toString} in parameters for url: /{a}/{toString}'') \<and>
   [''a'' \<mapsto> Str ''x''] ''__proto__'' = None \<and>
   new_compile ''/{a}/{__proto__}'' (Some [''a'' \<mapsto> Str ''x''])
     = Inr ''/x/[object Object]'' \<and>
   new_compile ''/{a}/{__proto__}'' (Some [''a'' \<mapsto> Str ''x''])
     \<noteq> Inl (Error ''expected {__proto__} in parameters for url: /{a}/{__proto__}'')"
  by code_simp

section \<open>A template without a route\<close>

text \<open>
  Claim C10: the constructor is not total. For the template \<open>/foo(\<close> the pattern text
  has an opening parenthesis that is never closed, \<open>new RegExp\<close> throws, and no route
  is constructed.
\<close>

theorem constructor_throws_on_open_parenthesis:
  "Route ''/foo('' = Inl SyntaxError"
  by code_simp

section \<open>The pattern of a plain template\<close>

lemma lex_plain_char:
  "plain_char c \<Longrightarrow> c \<noteq> CHR ''{'' \<Longrightarrow> lex (c # cs) = cons_tok (TChar c) (lex cs)"
  by (subst lex.simps) (auto simp: plain_char_def)

lemma lex_stray_brace:
  "braced cs = None \<Longrightarrow> lex (CHR ''{'' # cs) = cons_tok (TChar CHR ''{'') (lex cs)"
  by (subst lex.simps) simp

lemma lex_PARAM_REGEX_STRING:
  "lex (PARAM_REGEX_STRING @ cs) =
     cons_tok (TOpen True) (cons_tok (TClass True [(CHR ''/'', CHR ''/'')])
       (cons_tok (TRep 1 None True) (cons_tok TClose (lex cs))))"
  by (simp add: PARAM_REGEX_STRING_def lex.simps char_class_def class_items.simps
      lazy_suffix_def cons_tok_def split: sum.splits)

text \<open>The pattern text after a stray opening brace is no quantifier.\<close>

lemma pattern_text_simps [simp]:
  "pattern_text [] = []"
  "pattern_text (Lit c # ps) = c # pattern_text ps"
  "pattern_text (Hit m # ps) = PARAM_REGEX_STRING @ pattern_text ps"
  by (simp_all add: pattern_text_def)

lemma piece_toks_simps [simp]:
  "piece_toks [] = []"
  "piece_toks (Lit c # ps) = TChar c # piece_toks ps"
  "piece_toks (Hit m # ps) =
     TOpen True # TClass True [(CHR ''/'', CHR ''/'')] # TRep 1 None True # TClose # piece_toks ps"
  by (simp_all add: piece_toks_def)

lemma pattern_text_pieces_head:
  "pattern_text (pieces (c # cs)) @ t =
     (case PARAM_MATCHER_at (c # cs) of
        None \<Rightarrow> c # pattern_text (pieces cs) @ t
      | Some (m, rest) \<Rightarrow> CHR ''('' # ''[^/]+)'' @ pattern_text (pieces rest) @ t)"
  by (simp add: pieces_simps PARAM_REGEX_STRING_def split: option.splits)

lemma PARAM_MATCHER_at_no_brace: "c \<noteq> CHR ''{'' \<Longrightarrow> PARAM_MATCHER_at (c # cs) = None"
  by (simp add: PARAM_MATCHER_at_def)

lemma pattern_text_pieces_starts:
  assumes "pattern_text (pieces r) @ ''$'' = x # rest" and "x \<noteq> CHR ''(''" and "x \<noteq> CHR ''$''"
  shows "\<exists>r'. r = x # r' \<and> rest = pattern_text (pieces r') @ ''$''"
proof (cases r)
  case Nil
  with assms show ?thesis by (simp add: pieces_simps)
next
  case (Cons c cs)
  with assms show ?thesis
    by (auto simp: pattern_text_pieces_head split: option.splits)
qed

lemma digits_pattern_text:
  "takeWhile is_digit (pattern_text (pieces cs) @ ''$'') = takeWhile is_digit cs \<and>
   dropWhile is_digit (pattern_text (pieces cs) @ ''$'')
     = pattern_text (pieces (dropWhile is_digit cs)) @ ''$''"
proof (induction cs)
  case Nil
  show ?case by (simp add: pieces_simps is_digit_def)
next
  case (Cons c cs)
  show ?case
  proof (cases "is_digit c")
    case True
    then have "c \<noteq> CHR ''{''" by (auto simp: is_digit_def)
    from PARAM_MATCHER_at_no_brace[OF this] True Cons.IH show ?thesis
      by (simp add: pattern_text_pieces_head)
  next
    case False
    have "\<not> is_digit (hd (pattern_text (pieces (c # cs)) @ ''$''))"
      using False by (simp add: pattern_text_pieces_head is_digit_def split: option.splits)
    moreover have "pattern_text (pieces (c # cs)) @ ''$'' \<noteq> []" by simp
    ultimately have "takeWhile is_digit (pattern_text (pieces (c # cs)) @ ''$'') = []"
      and "dropWhile is_digit (pattern_text (pieces (c # cs)) @ ''$'')
        = pattern_text (pieces (c # cs)) @ ''$''"
      by (cases "pattern_text (pieces (c # cs)) @ ''$''"; simp)+
    with False show ?thesis by simp
  qed
qed

lemma number_pattern_text:
  "number (pattern_text (pieces cs) @ ''$'') =
     (if takeWhile is_digit cs = [] then None
      else Some (digits_val (takeWhile is_digit cs),
                 pattern_text (pieces (dropWhile is_digit cs)) @ ''$''))"
  by (simp add: number_def digits_pattern_text)

lemma digit_no_brace: "is_digit d \<Longrightarrow> \<not> brace d"
  by (auto simp: is_digit_def brace_def)

lemma braced_stray:
  assumes "PARAM_MATCHER_at (CHR ''{'' # cs) = None"
  shows "braced (pattern_text (pieces cs) @ ''$'') = None"
proof (rule ccontr)
  assume "braced (pattern_text (pieces cs) @ ''$'') \<noteq> None"
  then obtain res where b: "braced (pattern_text (pieces cs) @ ''$'') = Some res" by auto
  let ?ds = "takeWhile is_digit cs"
  let ?r = "dropWhile is_digit cs"
  have cs: "cs = ?ds @ ?r" by simp
  have dsb: "\<forall>c \<in> set ?ds. \<not> brace c"
    by (auto dest!: set_takeWhileD digit_no_brace)
  from b have ds: "?ds \<noteq> []"
    by (auto simp: braced_def number_pattern_text split: if_splits)
  have hit: False if "cs = u @ CHR ''}'' # s'" "u \<noteq> []" "\<forall>c \<in> set u. \<not> brace c" for u s'
    using PARAM_MATCHER_at_intro[OF that(2,3), of s'] that(1) assms by simp
  from b ds obtain x r1 where x: "pattern_text (pieces ?r) @ ''$'' = x # r1"
    and x': "x = CHR ''}'' \<or> x = CHR '',''"
    by (auto simp: braced_def number_pattern_text split: if_splits list.splits)
  from x' have "x \<noteq> CHR ''(''" "x \<noteq> CHR ''$''" by auto
  from pattern_text_pieces_starts[OF x this] obtain r' where
    r': "?r = x # r'" "r1 = pattern_text (pieces r') @ ''$''" by blast
  show False
  proof (cases "x = CHR ''}''")
    case True
    with cs r'(1) have "cs = ?ds @ CHR ''}'' # r'" by simp
    from hit[OF this ds dsb] show False .
  next
    case False
    with x' have xc: "x = CHR '',''" by simp
    from b ds x xc False r'(2) obtain y r2 where y: "pattern_text (pieces r') @ ''$'' = y # r2"
      by (cases "pattern_text (pieces r') @ ''$''") auto
    show False
    proof (cases "y = CHR ''}''")
      case True
      then have "y \<noteq> CHR ''(''" "y \<noteq> CHR ''$''" by auto
      from pattern_text_pieces_starts[OF y this] True obtain r'' where "r' = CHR ''}'' # r''"
        by blast
      with cs r'(1) xc have "cs = (?ds @ '','') @ CHR ''}'' # r''" by simp
      moreover have "\<forall>c \<in> set (?ds @ '',''). \<not> brace c" using dsb by (simp add: brace_def)
      ultimately show False using hit[of "?ds @ '',''" r''] by simp
    next
      case ny: False
      let ?es = "takeWhile is_digit r'"
      let ?r3 = "dropWhile is_digit r'"
      have esb: "\<forall>c \<in> set ?es. \<not> brace c"
        by (auto dest!: set_takeWhileD digit_no_brace)
      from b ds x xc r'(2) y ny have
        "(case number (y # r2) of
            None \<Rightarrow> None
          | Some (mx, r3) \<Rightarrow>
              (case r3 of
                 [] \<Rightarrow> None
               | z # r4 \<Rightarrow>
                   if z = CHR ''}'' then Some (digits_val ?ds, Some mx, r4) else None))
          = Some res"
        by (simp add: braced_def number_pattern_text)
      then have
        "(case number (pattern_text (pieces r') @ ''$'') of
            None \<Rightarrow> None
          | Some (mx, r3) \<Rightarrow>
              (case r3 of
                 [] \<Rightarrow> None
               | z # r4 \<Rightarrow>
                   if z = CHR ''}'' then Some (digits_val ?ds, Some mx, r4) else None))
          = Some res"
        by (simp only: y)
      then have es: "?es \<noteq> []"
        and z: "\<exists>r4. pattern_text (pieces ?r3) @ ''$'' = CHR ''}'' # r4"
        by (auto simp: number_pattern_text split: if_splits list.splits)
      from z obtain r4 where z4: "pattern_text (pieces ?r3) @ ''$'' = CHR ''}'' # r4" by blast
      from pattern_text_pieces_starts[OF z4] obtain r5 where "?r3 = CHR ''}'' # r5" by auto
      then have "r' = ?es @ CHR ''}'' # r5"
        using takeWhile_dropWhile_id[of is_digit r'] by simp
      with cs r'(1) xc have "cs = (?ds @ CHR '','' # ?es) @ CHR ''}'' # r5" by simp
      moreover have "\<forall>c \<in> set (?ds @ CHR '','' # ?es). \<not> brace c"
        using dsb esb by (auto simp: brace_def)
      ultimately show False using hit[of "?ds @ CHR '','' # ?es" r5] by simp
    qed
  qed
qed

lemma lex_pattern_text:
  "list_all plain_char (literal_text (pieces s)) \<Longrightarrow>
   lex (pattern_text (pieces s) @ ''$'') = Inr (piece_toks (pieces s) @ [TEol])"
proof (induction s rule: pieces_induct)
  case Nil
  have "lex ''$'' = Inr [TEol]"
    by (simp add: lex.simps cons_tok_def)
  then show ?case by (simp add: pieces_simps piece_toks_def)
next
  case (Cons c cs)
  show ?case
  proof (cases "PARAM_MATCHER_at (c # cs)")
    case None
    then have p: "pieces (c # cs) = Lit c # pieces cs" by (simp add: pieces_simps)
    with Cons.prems have c: "plain_char c" and rest: "list_all plain_char (literal_text (pieces cs))"
      by (simp_all add: literal_text_def)
    have "lex (c # pattern_text (pieces cs) @ ''$'')
        = cons_tok (TChar c) (lex (pattern_text (pieces cs) @ ''$''))"
    proof (cases "c = CHR ''{''")
      case True
      with None braced_stray[of cs] show ?thesis by (simp add: lex_stray_brace)
    next
      case False
      from lex_plain_char[OF c False] show ?thesis .
    qed
    with Cons(1)[OF None rest] p show ?thesis
      by (simp add: cons_tok_def)
  next
    case (Some x)
    obtain m rest where x: "x = (m, rest)" by (cases x)
    with Some have p: "pieces (c # cs) = Hit m # pieces rest" by (simp add: pieces_simps)
    with Cons.prems have r: "list_all plain_char (literal_text (pieces rest))"
      by (simp add: literal_text_def)
    from Some x have ih: "lex (pattern_text (pieces rest) @ ''$'') = Inr (piece_toks (pieces rest) @ [TEol])"
      using Cons(2)[of m rest] r by simp
    have "lex (pattern_text (pieces (c # cs)) @ ''$'') =
        cons_tok (TOpen True) (cons_tok (TClass True [(CHR ''/'', CHR ''/'')])
          (cons_tok (TRep 1 None True) (cons_tok TClose (lex (pattern_text (pieces rest) @ ''$'')))))"
      using p lex_PARAM_REGEX_STRING[of "pattern_text (pieces rest) @ ''$''"] by simp
    with ih p show ?thesis
      by (simp add: cons_tok_def)
  qed
qed

lemma parse_toks_pieces:
  "parse_toks (piece_toks ps @ [TEol]) (None, [], ts, q) [] n
     = Inr (mk_seq (rev ts @ piece_terms n ps @ [Eol]))"
proof (induction ps arbitrary: ts q n)
  case Nil
  show ?case
    by (simp add: push_term_def finish_def)
next
  case (Cons p ps)
  show ?case
  proof (cases p)
    case (Lit c)
    have "parse_toks (piece_toks (p # ps) @ [TEol]) (None, [], ts, q) [] n
        = parse_toks (piece_toks ps @ [TEol]) (None, [], Chr c # ts, True) [] n"
      using Lit by (simp add: push_term_def)
    with Cons.IH[of "Chr c # ts" True n] Lit show ?thesis by simp
  next
    case (Hit m)
    have "parse_toks (piece_toks (p # ps) @ [TEol]) (None, [], ts, q) [] n
        = parse_toks (piece_toks ps @ [TEol]) (None, [], segment_group (Suc n) # ts, True) [] (Suc n)"
      using Hit
      by (simp add: push_term_def new_frame_def quantify_def wrap_def finish_def
          mk_seq_def segment_group_def del: One_nat_def)
    with Cons.IH[of "segment_group (Suc n) # ts" True "Suc n"] Hit show ?thesis by simp
  qed
qed

lemma RegExp_plain:
  assumes "plain fmt"
  shows "RegExp (''^'' @ pattern_text (pieces fmt) @ ''$'') = Inr (spec_pattern (pieces fmt))"
proof -
  from lex_pattern_text[of fmt] assms
  have "lex (pattern_text (pieces fmt) @ ''$'') = Inr (piece_toks (pieces fmt) @ [TEol])"
    by (simp add: plain_def)
  then have "lex (''^'' @ pattern_text (pieces fmt) @ ''$'')
      = Inr (TBol # piece_toks (pieces fmt) @ [TEol])"
    by (simp add: lex.simps cons_tok_def)
  then show ?thesis
    using parse_toks_pieces[of "pieces fmt" "[Bol]" False 0]
    by (simp add: RegExp_def new_frame_def push_term_def spec_pattern_def mk_seq_def)
qed

lemma Route_plain:
  assumes "plain fmt"
  shows "Route fmt = Inr \<lparr>format = fmt, paramNames = placeholder_names (pieces fmt),
     isStatic = (placeholder_names (pieces fmt) = []),
     regex = \<lparr>ast = spec_pattern (pieces fmt), global = False, lastIndex = 0\<rparr>\<rparr>"
  using RegExp_plain[OF assms] by (simp add: Route_unfold)

section \<open>Matching against the pattern of a plain template\<close>

lemma in_class_slash: "in_class [(CHR ''/'', CHR ''/'')] d = (d = CHR ''/'')"
proof -
  have "((of_char (CHR ''/'') :: nat) \<le> of_char d \<and> (of_char d :: nat) \<le> of_char (CHR ''/''))
      = ((of_char d :: nat) = of_char (CHR ''/''))"
    by auto
  then show ?thesis by (simp del: of_char_Char)
qed

lemma segment_iff: "segment u = (u \<noteq> [] \<and> (\<forall>c \<in> set u. \<not> in_class [(CHR ''/'', CHR ''/'')] c))"
  unfolding segment_def in_class_slash by auto

lemma concat_map_concat_list:
  "concat (map f (concat xss)) = concat (map (\<lambda>xs. concat (map f xs)) xss)"
  by (induction xss) simp_all

lemma ms_segment_group:
  "set (ms (segment_group k) inp (s, cp)) = {(s', cp(k \<mapsto> u)) | u s'. s = u @ s' \<and> segment u}"
  unfolding segment_group_def ms_group_plus_neg_class segment_iff by blast

lemma ms_foldr_append:
  "ms (foldr Seq (xs @ ys) Empty) inp x
     = concat (map (ms (foldr Seq ys Empty) inp) (ms (foldr Seq xs Empty) inp x))"
proof (induction xs arbitrary: x)
  case Nil
  show ?case by simp
next
  case (Cons a xs)
  have ih: "ms (foldr Seq (xs @ ys) Empty) inp
      = (\<lambda>x. concat (map (ms (foldr Seq ys Empty) inp) (ms (foldr Seq xs Empty) inp x)))"
    by (rule ext) (rule Cons.IH)
  have "ms (foldr Seq ((a # xs) @ ys) Empty) inp x
      = concat (map (ms (foldr Seq (xs @ ys) Empty) inp) (ms a inp x))"
    by (simp del: foldr_append)
  also have "\<dots> = concat (map (ms (foldr Seq ys Empty) inp)
                        (concat (map (ms (foldr Seq xs Empty) inp) (ms a inp x))))"
    by (simp only: ih concat_map_concat_list map_map comp_def)
  also have "\<dots> = concat (map (ms (foldr Seq ys Empty) inp) (ms (foldr Seq (a # xs) Empty) inp x))"
    by simp
  finally show ?case .
qed

lemma ms_pieces:
  "set (ms (foldr Seq (piece_terms k ps) Empty) inp (s, cp))
     = {(s', seg_caps cp k segs) | segs s'.
          length segs = length (placeholder_names ps) \<and> list_all segment segs \<and>
          s = fill ps segs @ s'}"
proof (induction ps arbitrary: k s cp)
  case Nil
  show ?case by (auto simp: placeholder_names_def)
next
  case (Cons p ps)
  show ?case
  proof (cases p)
    case (Lit c)
    have "set (ms (foldr Seq (piece_terms k (p # ps)) Empty) inp (s, cp))
        = (case s of [] \<Rightarrow> {} | d # ds \<Rightarrow>
             if d = c then set (ms (foldr Seq (piece_terms k ps) Empty) inp (ds, cp)) else {})"
      using Lit by (simp split: list.splits)
    also have "\<dots> = {(s', seg_caps cp k segs) | segs s'.
          length segs = length (placeholder_names (p # ps)) \<and> list_all segment segs \<and>
          s = fill (p # ps) segs @ s'}"
      using Lit by (auto simp: Cons.IH placeholder_names_def split: list.splits)
    finally show ?thesis .
  next
    case (Hit m)
    have "set (ms (foldr Seq (piece_terms k (p # ps)) Empty) inp (s, cp))
        = (\<Union>y \<in> set (ms (segment_group (Suc k)) inp (s, cp)).
             set (ms (foldr Seq (piece_terms (Suc k) ps) Empty) inp y))"
      using Hit by simp
    also have "\<dots> = (\<Union>y \<in> {(s', cp(Suc k \<mapsto> u)) | u s'. s = u @ s' \<and> segment u}.
             set (ms (foldr Seq (piece_terms (Suc k) ps) Empty) inp y))"
      by (simp only: ms_segment_group)
    also have "\<dots> = {(s', seg_caps cp k segs) | segs s'.
          length segs = length (placeholder_names (p # ps)) \<and> list_all segment segs \<and>
          s = fill (p # ps) segs @ s'}" (is "?L = ?R")
    proof (rule set_eqI, rule iffI)
      fix z assume "z \<in> ?L"
      then obtain u s1 where u: "s = u @ s1" "segment u"
        and z: "z \<in> set (ms (foldr Seq (piece_terms (Suc k) ps) Empty) inp (s1, cp(Suc k \<mapsto> u)))"
        by auto
      from z obtain segs s' where segs: "z = (s', seg_caps (cp(Suc k \<mapsto> u)) (Suc k) segs)"
        "length segs = length (placeholder_names ps)" "list_all segment segs"
        "s1 = fill ps segs @ s'"
        unfolding Cons.IH by blast
      have "z = (s', seg_caps cp k (u # segs))" using segs(1) by simp
      moreover have "length (u # segs) = length (placeholder_names (p # ps))"
        using segs(2) Hit by (simp add: placeholder_names_def)
      moreover have "list_all segment (u # segs)" using segs(3) u(2) by simp
      moreover have "s = fill (p # ps) (u # segs) @ s'" using u(1) segs(4) Hit by simp
      ultimately show "z \<in> ?R" by blast
    next
      fix z assume "z \<in> ?R"
      then obtain segs s' where segs: "z = (s', seg_caps cp k segs)"
        "length segs = length (placeholder_names (p # ps))" "list_all segment segs"
        "s = fill (p # ps) segs @ s'"
        by blast
      from segs(2) Hit obtain u ss where ss: "segs = u # ss"
        by (cases segs) (auto simp: placeholder_names_def)
      from segs ss Hit have 1: "s = u @ (fill ps ss @ s')" "segment u"
        and 2: "length ss = length (placeholder_names ps)" "list_all segment ss"
        by (auto simp: placeholder_names_def)
      have "z \<in> set (ms (foldr Seq (piece_terms (Suc k) ps) Empty) inp
                       (fill ps ss @ s', cp(Suc k \<mapsto> u)))"
        unfolding Cons.IH using segs(1) ss 2 by auto
      with 1 show "z \<in> ?L" by blast
    qed
    finally show ?thesis .
  qed
qed

declare upt_Suc [simp del]

lemma placeholder_names_simps [simp]:
  "placeholder_names [] = []"
  "placeholder_names (Lit c # ps) = placeholder_names ps"
  "placeholder_names (Hit m # ps) = slice m 1 (- 1) # placeholder_names ps"
  by (simp_all add: placeholder_names_def)

lemma literal_text_simps [simp]:
  "literal_text [] = []"
  "literal_text (Lit c # ps) = c # literal_text ps"
  "literal_text (Hit m # ps) = literal_text ps"
  by (simp_all add: literal_text_def)

lemma concat_map_if_singleton:
  "concat (map (\<lambda>y. if P y then [y] else []) xs) = filter P xs"
  by (induction xs) simp_all

lemma ms_spec_pattern:
  "ms (spec_pattern ps) inp x =
     (if length (fst x) = length inp
      then filter (\<lambda>y. fst y = []) (ms (foldr Seq (piece_terms 0 ps) Empty) inp x)
      else [])"
proof -
  have e: "ms (foldr Seq [Eol] Empty) inp = (\<lambda>y. if fst y = [] then [y] else [])"
    by (rule ext) simp
  have "ms (foldr Seq (piece_terms 0 ps @ [Eol]) Empty) inp x
      = filter (\<lambda>y. fst y = []) (ms (foldr Seq (piece_terms 0 ps) Empty) inp x)"
    by (simp only: ms_foldr_append e concat_map_if_singleton)
  then show ?thesis
    by (simp add: spec_pattern_def del: foldr_append)
qed

text \<open>A pattern that starts with \<open>^\<close> matches at index 0 or not at all.\<close>

lemma match_at_Bol_later:
  assumes "0 < i" and "i \<le> length inp"
  shows "match_at (Seq Bol r) inp i = None"
proof -
  from assms have "length (drop i inp) \<noteq> length inp" by simp
  then show ?thesis by (simp add: match_at_def)
qed

lemma first_match_None:
  "(\<And>i. i \<in> set js \<Longrightarrow> match_at r inp i = None) \<Longrightarrow> first_match r inp js = None"
  by (induction js) simp_all

lemma exec_Bol: "exec (Seq Bol r) inp = match_at (Seq Bol r) inp 0"
proof -
  have "[0..<Suc (length inp)] = 0 # [Suc 0..<Suc (length inp)]"
    by (simp add: upt_conv_Cons)
  moreover have "first_match (Seq Bol r) inp [Suc 0..<Suc (length inp)] = None"
    by (rule first_match_None) (auto simp: match_at_Bol_later)
  ultimately show ?thesis
    by (simp add: exec_def split: option.splits)
qed

lemma exec_spec_pattern: "exec (spec_pattern ps) inp = match_at (spec_pattern ps) inp 0"
  by (simp add: spec_pattern_def exec_Bol del: foldr_append)

lemma groups_of_foldr_Seq: "groups_of (foldr Seq xs Empty) = concat (map groups_of xs)"
  by (induction xs) simp_all

lemma groups_of_piece_terms:
  "concat (map groups_of (piece_terms k ps)) = [Suc k..<Suc (k + length (placeholder_names ps))]"
proof (induction ps arbitrary: k)
  case Nil
  show ?case by simp
next
  case (Cons p ps)
  show ?case
  proof (cases p)
    case (Lit c)
    with Cons.IH[of k] show ?thesis by simp
  next
    case (Hit m)
    with Cons.IH[of "Suc k"] show ?thesis
      by (simp add: segment_group_def upt_conv_Cons)
  qed
qed

lemma groups_of_spec_pattern:
  "groups_of (spec_pattern ps) = [1..<Suc (length (placeholder_names ps))]"
  using groups_of_piece_terms[of 0 ps]
  by (simp add: spec_pattern_def groups_of_foldr_Seq del: foldr_append)

lemma ngroups_spec_pattern: "ngroups (spec_pattern ps) = length (placeholder_names ps)"
  by (simp add: ngroups_def groups_of_spec_pattern)

lemma seg_caps_below: "j \<le> k \<Longrightarrow> seg_caps cp k segs j = cp j"
  by (induction segs arbitrary: cp k) simp_all

lemma seg_caps_nth: "i < length segs \<Longrightarrow> seg_caps cp k segs (Suc (k + i)) = Some (segs ! i)"
proof (induction segs arbitrary: cp k i)
  case Nil
  then show ?case by simp
next
  case (Cons s ss)
  show ?case
  proof (cases i)
    case 0
    then show ?thesis by (simp add: seg_caps_below)
  next
    case (Suc i')
    with Cons.prems have "i' < length ss" by simp
    from Cons.IH[OF this, of "cp(Suc k \<mapsto> s)" "Suc k"] Suc show ?thesis
      by (simp del: fun_upd_apply)
  qed
qed

lemma captures_seg_caps:
  "map (capture (seg_caps cp 0 segs)) [1..<Suc (length segs)] = map Str segs"
proof (rule nth_equalityI)
  show "length (map (capture (seg_caps cp 0 segs)) [1..<Suc (length segs)]) = length (map Str segs)"
    by simp
next
  fix i assume "i < length (map (capture (seg_caps cp 0 segs)) [1..<Suc (length segs)])"
  then have i: "i < length segs" by simp
  then have "[1..<Suc (length segs)] ! i = Suc i"
    by simp
  with i seg_caps_nth[OF i, of cp 0]
  show "map (capture (seg_caps cp 0 segs)) [1..<Suc (length segs)] ! i = map Str segs ! i"
    by (simp add: capture_def)
qed

lemma exec_spec_pattern_Some:
  assumes "exec (spec_pattern ps) inp = Some arr"
  shows "\<exists>segs. length segs = length (placeholder_names ps) \<and> list_all segment segs \<and>
     inp = fill ps segs \<and> arr = Str inp # map Str segs"
proof -
  let ?R = "ms (foldr Seq (piece_terms 0 ps) Empty) inp (inp, \<lambda>_. None)"
  from assms obtain y ys where y: "filter (\<lambda>y. fst y = []) ?R = y # ys"
    and arr: "arr = Str (take (length inp - length (fst y)) inp)
                # map (capture (snd y)) [1..<Suc (length (placeholder_names ps))]"
    by (auto simp: exec_spec_pattern match_at_def ms_spec_pattern ngroups_spec_pattern
        split: list.splits)
  from y have "y \<in> set (filter (\<lambda>y. fst y = []) ?R)" by simp
  then have yR: "y \<in> set ?R" and y0: "fst y = []" by simp_all
  from yR obtain segs s' where segs: "y = (s', seg_caps (\<lambda>_. None) 0 segs)"
    "length segs = length (placeholder_names ps)" "list_all segment segs"
    "inp = fill ps segs @ s'"
    unfolding ms_pieces by blast
  from segs(1) y0 have s': "s' = []" by simp
  from arr segs(1,2) s' captures_seg_caps[of "\<lambda>_. None" segs]
  have "arr = Str inp # map Str segs" by (simp)
  with segs s' show ?thesis by auto
qed

lemma exec_spec_pattern_None:
  "(exec (spec_pattern ps) inp = None) =
     (\<not> (\<exists>segs. length segs = length (placeholder_names ps) \<and> list_all segment segs \<and>
            inp = fill ps segs))"
proof -
  let ?R = "ms (foldr Seq (piece_terms 0 ps) Empty) inp (inp, \<lambda>_. None)"
  have "(exec (spec_pattern ps) inp = None) = (filter (\<lambda>y. fst y = []) ?R = [])"
    by (simp add: exec_spec_pattern match_at_def ms_spec_pattern split: list.splits)
  also have "\<dots> = (\<not> (\<exists>y \<in> set ?R. fst y = []))"
    by (auto simp: filter_empty_conv)
  also have "\<dots> = (\<not> (\<exists>segs. length segs = length (placeholder_names ps) \<and>
      list_all segment segs \<and> inp = fill ps segs))"
    unfolding ms_pieces by auto
  finally show ?thesis .
qed

lemma conforms_iff_fill:
  "conforms ps path =
     (\<exists>segs. length segs = length (placeholder_names ps) \<and> list_all segment segs \<and>
        path = fill ps segs)"
proof (induction ps arbitrary: path)
  case Nil
  show ?case by auto
next
  case (Cons p ps)
  show ?case
  proof (cases p)
    case (Lit c)
    then show ?thesis
      by (auto simp: Cons.IH split: list.splits)
  next
    case (Hit m)
    show ?thesis
    proof
      assume "conforms (p # ps) path"
      with Hit obtain k where k: "1 \<le> k" "k \<le> length path" "segment (take k path)"
        "conforms ps (drop k path)" by auto
      from k(4) obtain ss where ss: "length ss = length (placeholder_names ps)"
        "list_all segment ss" "drop k path = fill ps ss"
        unfolding Cons.IH by blast
      have "path = take k path @ drop k path" by simp
      with ss(3) have "path = fill (p # ps) (take k path # ss)" using Hit by simp
      moreover have "length (take k path # ss) = length (placeholder_names (p # ps))"
        using ss(1) Hit by simp
      moreover have "list_all segment (take k path # ss)" using ss(2) k(3) by simp
      ultimately show "\<exists>segs. length segs = length (placeholder_names (p # ps)) \<and>
          list_all segment segs \<and> path = fill (p # ps) segs" by blast
    next
      assume "\<exists>segs. length segs = length (placeholder_names (p # ps)) \<and>
          list_all segment segs \<and> path = fill (p # ps) segs"
      then obtain segs where segs: "length segs = length (placeholder_names (p # ps))"
        "list_all segment segs" "path = fill (p # ps) segs" by blast
      from segs(1) Hit obtain u ss where us: "segs = u # ss"
        by (cases segs) auto
      from segs us Hit have p: "path = u @ fill ps ss" and u: "segment u"
        and ss: "length ss = length (placeholder_names ps)" "list_all segment ss"
        by auto
      from ss have c: "conforms ps (fill ps ss)" unfolding Cons.IH by blast
      from u have "1 \<le> length u" by (cases u) (auto simp: segment_def)
      moreover from p have "length u \<le> length path" by simp
      moreover from p u have "segment (take (length u) path)" by simp
      moreover from p c have "conforms ps (drop (length u) path)" by simp
      ultimately show "conforms (p # ps) path" using Hit by auto
    qed
  qed
qed

section \<open>The loop of \<open>parse\<close>\<close>

lemma parse_loop_map_of:
  assumes "length arr = Suc (length names)" and "1 \<le> i" and "i \<le> length arr"
    and "params ''__proto__'' = None"
  shows "parse_loop names arr i params
     = params ++ map_of (rev (filter (\<lambda>p. fst p \<noteq> ''__proto__'')
                               (zip (drop (i - 1) names) (drop i arr))))"
  using assms
proof (induction names arr i params rule: parse_loop.induct)
  case (1 names m i params)
  show ?case
  proof (cases "i < length m")
    case False
    with "1.prems" have "i = length m" by simp
    then show ?thesis by (subst parse_loop.simps) simp
  next
    case True
    with "1.prems" have i1: "i - 1 < length names" by simp
    from "1.prems" have si: "Suc (i - 1) = i" by simp
    have dn: "drop (i - 1) names = names ! (i - 1) # drop i names"
      using Cons_nth_drop_Suc[OF i1] si by simp
    have dm: "drop i m = m ! i # drop (Suc i) m"
      using Cons_nth_drop_Suc[OF True] by simp
    let ?k = "names ! (i - 1)"
    let ?rest = "filter (\<lambda>p. fst p \<noteq> ''__proto__'') (zip (drop i names) (drop (Suc i) m))"
    have z: "zip (drop (i - 1) names) (drop i m) = (?k, m ! i) # zip (drop i names) (drop (Suc i) m)"
      unfolding dn dm by simp
    have key: "prop_key names (i - 1) = ?k"
      using i1 by (simp add: prop_key_def)
    have step: "parse_loop names m i params
        = parse_loop names m (Suc i) (set_prop params ?k (m ! i))"
      using True key by (subst parse_loop.simps) simp
    have np: "set_prop params ?k (m ! i) ''__proto__'' = None"
      using "1.prems"(4) by (simp add: set_prop_def)
    have "parse_loop names m (Suc i) (set_prop params ?k (m ! i))
        = set_prop params ?k (m ! i) ++ map_of (rev ?rest)"
      using "1.IH"[OF True] "1.prems"(1,3) True np key by simp
    also have "\<dots> = params
        ++ map_of (rev (filter (\<lambda>p. fst p \<noteq> ''__proto__'') (zip (drop (i - 1) names) (drop i m))))"
    proof (cases "?k = ''__proto__''")
      case True
      with "1.prems"(4) have "set_prop params ?k (m ! i) = params"
        by (simp add: set_prop_def)
      with True show ?thesis unfolding z by simp
    next
      case False
      then have "set_prop params ?k (m ! i) = params(?k \<mapsto> m ! i)"
        by (simp add: set_prop_def)
      with False show ?thesis unfolding z by simp
    qed
    finally show ?thesis using step by simp
  qed
qed

lemma fst_set_zip: "length vals = length names \<Longrightarrow> fst ` set (zip names vals) = set names"
  by (metis map_fst_zip set_map)

lemma map_of_filter_key:
  "map_of (filter (\<lambda>p. fst p \<noteq> q) xs) = map_of xs |` (- {q})"
  by (induction xs) (auto simp: restrict_map_def fun_eq_iff)

text \<open>
  The object \<open>parse\<close> builds from a match array with one capture per name: each name is
  a property with the capture of its last occurrence, except that there is no property
  \<open>__proto__\<close>.
\<close>

lemma parse_loop_match_array:
  assumes "length vals = length names"
  shows "parse_loop names (whole # vals) 1 Map.empty
     = map_of (rev (zip names vals)) |` (- {''__proto__''})"
proof -
  have "parse_loop names (whole # vals) 1 Map.empty
      = map_of (rev (filter (\<lambda>p. fst p \<noteq> ''__proto__'') (zip names vals)))"
    using parse_loop_map_of[of "whole # vals" names 1 Map.empty] assms by simp
  also have "\<dots> = map_of (filter (\<lambda>p. fst p \<noteq> ''__proto__'') (rev (zip names vals)))"
    by (simp add: rev_filter)
  finally show ?thesis by (simp add: map_of_filter_key)
qed

lemma map_of_rev_zip_last:
  assumes "length vals = length names" and "i < length names"
    and "\<forall>j. i < j \<and> j < length names \<longrightarrow> names ! j \<noteq> names ! i"
  shows "map_of (rev (zip names vals)) (names ! i) = Some (vals ! i)"
  using assms
proof (induction names arbitrary: vals i)
  case Nil
  then show ?case by simp
next
  case (Cons n ns)
  from Cons.prems(1) obtain v vs where vals: "vals = v # vs" and len: "length vs = length ns"
    by (cases vals) auto
  have m: "map_of (rev (zip (n # ns) vals)) k
      = (case map_of (rev (zip ns vs)) k of None \<Rightarrow> [n \<mapsto> v] k | Some x \<Rightarrow> Some x)" for k
    by (simp add: vals map_add_def)
  show ?case
  proof (cases i)
    case 0
    have "n \<notin> set ns"
    proof
      assume "n \<in> set ns"
      then obtain j where "j < length ns" "ns ! j = n" by (auto simp: in_set_conv_nth)
      with Cons.prems(3)[rule_format, of "Suc j"] 0 show False by simp
    qed
    with len have "map_of (rev (zip ns vs)) n = None"
      by (simp add: map_of_eq_None_iff fst_set_zip)
    with 0 vals show ?thesis unfolding m by simp
  next
    case (Suc i')
    with Cons.prems have i': "i' < length ns" by simp
    have "\<forall>j. i' < j \<and> j < length ns \<longrightarrow> ns ! j \<noteq> ns ! i'"
    proof (intro allI impI)
      fix j assume "i' < j \<and> j < length ns"
      with Cons.prems(3)[rule_format, of "Suc j"] Suc show "ns ! j \<noteq> ns ! i'" by simp
    qed
    from Cons.IH[OF len i' this] Suc vals show ?thesis unfolding m by simp
  qed
qed

lemma dom_map_of_rev_zip:
  "length vals = length names \<Longrightarrow> dom (map_of (rev (zip names vals))) = set names"
  by (simp add: dom_map_of_conv_image_fst fst_set_zip)

section \<open>Routes of plain templates\<close>

lemma piece_text_simps [simp]:
  "piece_text [] = []"
  "piece_text (Lit c # ps) = c # piece_text ps"
  "piece_text (Hit m # ps) = m @ piece_text ps"
  by (simp_all add: piece_text_def)

lemma conforms_no_placeholder:
  "placeholder_names ps = [] \<Longrightarrow> conforms ps path = (path = piece_text ps)"
proof (induction ps arbitrary: path)
  case Nil
  show ?case by simp
next
  case (Cons p ps)
  then show ?case
    by (cases p) (auto split: list.splits)
qed

lemma regex_plain:
  assumes "plain fmt" and "Route fmt = Inr r"
  shows "ast (regex r) = spec_pattern (pieces fmt)"
  using assms(2) Route_plain[OF assms(1)] by auto

lemma match_plain:
  assumes "plain fmt" and "Route fmt = Inr r"
  shows "match r path = conforms (pieces fmt) path"
  using exec_spec_pattern_None[of "pieces fmt" path]
  by (auto simp: match_flagless[OF Route_fields(5)[OF assms(2)]] test_def
        regex_plain[OF assms] conforms_iff_fill)

lemma parse_plain:
  assumes "plain fmt" and "Route fmt = Inr r" and "parse r path = Some m"
  shows "\<exists>segs. length segs = length (paramNames r) \<and> list_all segment segs \<and>
     path = fill (pieces fmt) segs \<and>
     m = map_of (rev (zip (paramNames r) (map Str segs))) |` (- {''__proto__''})"
proof -
  from assms(3) obtain arr where arr: "exec (spec_pattern (pieces fmt)) path = Some arr"
    and m: "m = parse_loop (paramNames r) arr 1 Map.empty"
    by (auto simp: parse_flagless[OF Route_fields(5)[OF assms(2)]] regex_plain[OF assms(1,2)]
          split: option.splits)
  from exec_spec_pattern_Some[OF arr] obtain segs where
    segs: "length segs = length (placeholder_names (pieces fmt))" "list_all segment segs"
      "path = fill (pieces fmt) segs" "arr = Str path # map Str segs"
    by blast
  from segs(1) Route_fields(2)[OF assms(2)] have len: "length (map Str segs) = length (paramNames r)"
    by simp
  from m segs(4) parse_loop_match_array[OF len]
  have "m = map_of (rev (zip (paramNames r) (map Str segs))) |` (- {''__proto__''})" by simp
  with segs len show ?thesis by auto
qed

section \<open>Literal text read as pattern syntax\<close>

text \<open>
  The routes of the templates \<open>/a+\<close> and \<open>/v1.0\<close>, and the paths they match: one or more
  \<open>a\<close> after the slash, and any character but a line terminator between \<open>/v1\<close> and \<open>0\<close>.
\<close>

lemma ms_Chr:
  "ms (Chr c) inp (s, cp) = (case s of [] \<Rightarrow> [] | d # ds \<Rightarrow> if d = c then [(ds, cp)] else [])"
  by (simp split: list.splits)

lemma ms_star_chr:
  "set (ms (Rep 0 None True (Chr c)) inp (s, cp)) = {(s', cp) | n s'. s = replicate n c @ s'}"
proof (induction s)
  case Nil
  show ?case
    by (subst ms.simps(10)) (simp add: ms_Chr clear_Nil del: ms.simps(2))
next
  case (Cons d ds)
  show ?case
  proof (cases "d = c")
    case False
    have "set (ms (Rep 0 None True (Chr c)) inp (d # ds, cp)) = {(d # ds, cp)}"
      using False by (subst ms.simps(10)) (simp add: ms_Chr clear_Nil del: ms.simps(2))
    also have "\<dots> = {(s', cp) | n s'. d # ds = replicate n c @ s'}"
    proof -
      have "d # ds = replicate n c @ s' \<longleftrightarrow> n = 0 \<and> s' = d # ds" for n s'
        using False by (cases n) auto
      then show ?thesis by auto
    qed
    finally show ?thesis .
  next
    case True
    have "set (ms (Rep 0 None True (Chr c)) inp (d # ds, cp))
        = set (ms (Rep 0 None True (Chr c)) inp (ds, cp)) \<union> {(d # ds, cp)}"
      using True
      by (subst ms.simps(10)) (simp add: ms_Chr clear_Nil dec_max_def del: ms.simps(2))
    also have "\<dots> = {(s', cp) | n s'. ds = replicate n c @ s'} \<union> {(d # ds, cp)}"
      by (simp only: Cons.IH)
    also have "\<dots> = {(s', cp) | n s'. d # ds = replicate n c @ s'}"
    proof -
      have "d # ds = replicate n c @ s' \<longleftrightarrow>
          (n = 0 \<and> s' = d # ds) \<or> (\<exists>k. n = Suc k \<and> ds = replicate k c @ s')" for n s'
        using True by (cases n) auto
      then show ?thesis by auto
    qed
    finally show ?thesis .
  qed
qed

lemma ms_plus_chr:
  "set (ms (Rep 1 None True (Chr c)) inp (s, cp))
     = {(s', cp) | n s'. s = replicate (Suc n) c @ s'}"
proof (cases s)
  case Nil
  then show ?thesis
    by (subst ms.simps(10)) (simp add: ms_Chr clear_Nil del: ms.simps(2))
next
  case (Cons d ds)
  show ?thesis
  proof (cases "d = c")
    case False
    have "set (ms (Rep 1 None True (Chr c)) inp (s, cp)) = {}"
      using False Cons by (subst ms.simps(10)) (simp add: ms_Chr clear_Nil del: ms.simps(2))
    also have "\<dots> = {(s', cp) | n s'. s = replicate (Suc n) c @ s'}"
      using False Cons by auto
    finally show ?thesis .
  next
    case True
    have "set (ms (Rep 1 None True (Chr c)) inp (s, cp))
        = set (ms (Rep 0 None True (Chr c)) inp (ds, cp))"
      using True Cons
      by (subst ms.simps(10)) (simp add: ms_Chr clear_Nil dec_max_def del: ms.simps(2))
    also have "\<dots> = {(s', cp) | n s'. ds = replicate n c @ s'}"
      by (rule ms_star_chr)
    also have "\<dots> = {(s', cp) | n s'. s = replicate (Suc n) c @ s'}"
      using True Cons by auto
    finally show ?thesis .
  qed
qed

lemma test_Bol: "test (Seq Bol r) inp = (ms r inp (inp, \<lambda>_. None) \<noteq> [])"
  by (simp add: test_def exec_Bol match_at_def split: list.splits)

lemma Route_a_plus:
  "Route ''/a+''
     = Inr \<lparr>format = ''/a+'', paramNames = [], isStatic = True,
            regex = \<lparr>ast = Seq Bol (Seq (Chr CHR ''/'')
                              (Seq (Rep 1 None True (Chr CHR ''a'')) (Seq Eol Empty))),
                     global = False, lastIndex = 0\<rparr>\<rparr>"
  by code_simp

lemma Route_v1_0:
  "Route ''/v1.0''
     = Inr \<lparr>format = ''/v1.0'', paramNames = [], isStatic = True,
            regex = \<lparr>ast = Seq Bol (Seq (Chr CHR ''/'') (Seq (Chr CHR ''v'') (Seq (Chr CHR ''1'')
                              (Seq Dot (Seq (Chr CHR ''0'') (Seq Eol Empty)))))),
                     global = False, lastIndex = 0\<rparr>\<rparr>"
  by code_simp

lemma match_a_plus:
  "new_match ''/a+'' path = Inr (\<exists>n. path = ''/a'' @ replicate n CHR ''a'')"
proof -
  let ?P = "Rep 1 None True (Chr CHR ''a'')"
  have "(ms (Seq (Chr CHR ''/'') (Seq ?P (Seq Eol Empty))) path (path, \<lambda>_. None) \<noteq> [])
      = (\<exists>n. path = ''/a'' @ replicate n CHR ''a'')"
  proof (cases path)
    case Nil
    then show ?thesis by simp
  next
    case (Cons d ds)
    have "(concat (map (\<lambda>y. if fst y = [] then [y] else []) (ms ?P path (ds, \<lambda>_. None))) \<noteq> [])
        = (\<exists>y \<in> set (ms ?P path (ds, \<lambda>_. None)). fst y = [])"
      by (induction "ms ?P path (ds, \<lambda>_. None)") auto
    also have "\<dots> = (\<exists>n. ds = replicate (Suc n) CHR ''a'')"
      unfolding ms_plus_chr by auto
    finally show ?thesis
      using Cons by (auto simp del: ms.simps(10) One_nat_def)
  qed
  then show ?thesis
    by (simp add: new_match_def Route_a_plus match_flagless test_Bol del: ms.simps One_nat_def)
qed

lemma match_v1_0:
  "new_match ''/v1.0'' path
     = Inr (\<exists>c. \<not> line_terminator c \<and> path = ''/v1'' @ [c] @ ''0'')"
proof -
  have "(ms (Seq (Chr CHR ''/'') (Seq (Chr CHR ''v'') (Seq (Chr CHR ''1'')
            (Seq Dot (Seq (Chr CHR ''0'') (Seq Eol Empty)))))) path (path, \<lambda>_. None) \<noteq> [])
      = (\<exists>c. \<not> line_terminator c \<and> path = ''/v1'' @ [c] @ ''0'')"
    by (auto split: list.splits)
  then show ?thesis
    by (simp add: new_match_def Route_v1_0 match_flagless test_Bol del: ms.simps)
qed

text \<open>
  Claim C9: the literal text of a template is not escaped, so a metacharacter in it is
  pattern syntax. The template \<open>/a+\<close> has no placeholder and its literal text is
  \<open>/a+\<close>; its route matches exactly the paths that have one or more \<open>a\<close> after the
  slash, so it matches \<open>/aaa\<close> and does not match the path \<open>/a+\<close>. The template
  \<open>/v1.0\<close> has no placeholder either; its route matches exactly the paths with one
  character, no line terminator, between \<open>/v1\<close> and \<open>0\<close>, so it matches \<open>/v1x0\<close> and
  \<open>/v1.0\<close> and does not match \<open>/v2.0\<close>.
\<close>

theorem literal_text_not_escaped:
  "placeholder_names (pieces ''/a+'') = [] \<and> literal_text (pieces ''/a+'') = ''/a+'' \<and>
   new_match ''/a+'' path = Inr (\<exists>n. path = ''/a'' @ replicate n CHR ''a'') \<and>
   new_match ''/a+'' ''/aaa'' = Inr True \<and> ''/aaa'' \<noteq> ''/a+'' \<and>
   new_match ''/a+'' ''/a+'' = Inr False \<and>
   placeholder_names (pieces ''/v1.0'') = [] \<and> literal_text (pieces ''/v1.0'') = ''/v1.0'' \<and>
   new_match ''/v1.0'' path'
     = Inr (\<exists>c. \<not> line_terminator c \<and> path' = ''/v1'' @ [c] @ ''0'') \<and>
   new_match ''/v1.0'' ''/v1x0'' = Inr True \<and> ''/v1x0'' \<noteq> ''/v1.0'' \<and>
   new_match ''/v1.0'' ''/v1.0'' = Inr True \<and>
   new_match ''/v1.0'' ''/v2.0'' = Inr False"
proof -
  have "placeholder_names (pieces ''/a+'') = [] \<and> literal_text (pieces ''/a+'') = ''/a+'' \<and>
      new_match ''/a+'' ''/aaa'' = Inr True \<and> ''/aaa'' \<noteq> ''/a+'' \<and>
      new_match ''/a+'' ''/a+'' = Inr False"
    by code_simp
  moreover have "placeholder_names (pieces ''/v1.0'') = [] \<and>
      literal_text (pieces ''/v1.0'') = ''/v1.0'' \<and>
      new_match ''/v1.0'' ''/v1x0'' = Inr True \<and> ''/v1x0'' \<noteq> ''/v1.0'' \<and>
      new_match ''/v1.0'' ''/v1.0'' = Inr True \<and>
      new_match ''/v1.0'' ''/v2.0'' = Inr False"
    by code_simp
  ultimately show ?thesis
    using match_a_plus[of path] match_v1_0[of path'] by blast
qed

section \<open>\<open>match\<close>\<close>

text \<open>
  Claim C1, as amended: for every route of a plain template and every path, \<open>match\<close>
  returns true iff the whole path conforms to the template. For a static route this is:
  iff the path equals \<open>format\<close>. For a dynamic route: iff the path is the template with
  every literal character kept and every placeholder replaced by one or more characters
  other than \<open>/\<close>, with nothing before or after.
\<close>

theorem match_plain_template:
  assumes "plain fmt" and "Route fmt = Inr r"
  shows "match r path = (if isStatic r then path = fmt else conforms (pieces fmt) path)"
proof (cases "isStatic r")
  case True
  with Route_fields(2,3)[OF assms(2)] have "placeholder_names (pieces fmt) = []" by simp
  from conforms_no_placeholder[OF this] True show ?thesis
    by (simp add: match_plain[OF assms] piece_text_pieces)
next
  case False
  then show ?thesis by (simp add: match_plain[OF assms])
qed

theorem match_plain_template_witness:
  "plain ''/foo/{bar}'' \<and>
   (\<exists>r. Route ''/foo/{bar}'' = Inr r \<and> \<not> isStatic r \<and>
      match r ''/foo/abc'' = conforms (pieces ''/foo/{bar}'') ''/foo/abc'' \<and>
      match r ''/foo/abc'' \<and> \<not> match r ''/foo/abc/def'')"
proof -
  have p: "plain ''/foo/{bar}''" by code_simp
  have "case Route ''/foo/{bar}'' of Inl e \<Rightarrow> False
        | Inr r \<Rightarrow> \<not> isStatic r \<and> match r ''/foo/abc'' \<and> \<not> match r ''/foo/abc/def''"
    by code_simp
  then obtain r where r: "Route ''/foo/{bar}'' = Inr r" "\<not> isStatic r"
    "match r ''/foo/abc''" "\<not> match r ''/foo/abc/def''"
    by (auto split: sum.splits)
  from match_plain_template[OF p r(1), of "''/foo/abc''"] r p show ?thesis
    by auto
qed

text \<open>
  Claim C1 as stated fails: the template \<open>/a+b\<close> has no placeholder, and its route
  matches the path \<open>/aab\<close>, which is not the template.
\<close>

theorem match_static_counterexample:
  "new_match ''/a+b'' ''/aab'' = Inr True \<and> placeholder_names (pieces ''/a+b'') = [] \<and>
   ''/aab'' \<noteq> ''/a+b''"
  by code_simp

section \<open>\<open>parse\<close>\<close>

lemma parse_with_None_iff:
  "(fst (parse_with hostExec r path) = None) = (\<not> fst (match_with hostExec r path))"
  by (cases "hostExec (regex r) path")
     (simp add: parse_with_def match_with_def split: option.splits)

text \<open>
  Claim C2, as amended: for every route and every path, \<open>parse\<close> returns null iff
  \<open>match\<close> is false, whatever the host's \<open>exec\<close> does and also for the host as modelled
  here. When the template is plain and the path matches, the path is the
  template with one segment in place of each placeholder, and \<open>parse\<close> returns a mapping
  that has, the name \<open>__proto__\<close> left aside, exactly one entry per name in
  \<open>paramNames\<close>; a name other than \<open>__proto__\<close> is mapped to the segment at its last
  occurrence in the template. For a static route the mapping is empty.
\<close>

theorem parse_template:
  assumes "Route fmt = Inr r"
  shows "(fst (parse_with hostExec r' path) = None) = (\<not> fst (match_with hostExec r' path)) \<and>
    (parse r path = None) = (\<not> match r path) \<and>
    (plain fmt \<longrightarrow>
       (case parse r path of
          None \<Rightarrow> True
        | Some m \<Rightarrow>
            \<exists>segs. length segs = length (paramNames r) \<and> list_all segment segs \<and>
              path = fill (pieces fmt) segs \<and>
              dom m - {''__proto__''} = set (paramNames r) - {''__proto__''} \<and>
              (\<forall>i < length (paramNames r).
                 paramNames r ! i \<noteq> ''__proto__'' \<and>
                 (\<forall>j. i < j \<and> j < length (paramNames r) \<longrightarrow> paramNames r ! j \<noteq> paramNames r ! i)
                 \<longrightarrow> m (paramNames r ! i) = Some (Str (segs ! i))) \<and>
              (isStatic r \<longrightarrow> m = Map.empty)))"
proof (intro conjI impI)
  show "(fst (parse_with hostExec r' path) = None) = (\<not> fst (match_with hostExec r' path))"
    by (rule parse_with_None_iff)
next
  show "(parse r path = None) = (\<not> match r path)"
    by (simp add: parse_def match_def parse_with_None_iff)
next
  assume p: "plain fmt"
  show "case parse r path of
       None \<Rightarrow> True
     | Some m \<Rightarrow>
         \<exists>segs. length segs = length (paramNames r) \<and> list_all segment segs \<and>
           path = fill (pieces fmt) segs \<and>
           dom m - {''__proto__''} = set (paramNames r) - {''__proto__''} \<and>
           (\<forall>i < length (paramNames r).
              paramNames r ! i \<noteq> ''__proto__'' \<and>
              (\<forall>j. i < j \<and> j < length (paramNames r) \<longrightarrow> paramNames r ! j \<noteq> paramNames r ! i)
              \<longrightarrow> m (paramNames r ! i) = Some (Str (segs ! i))) \<and>
           (isStatic r \<longrightarrow> m = Map.empty)"
  proof (cases "parse r path")
    case None
    then show ?thesis by simp
  next
    case (Some m)
    from parse_plain[OF p assms Some] obtain segs where
      segs: "length segs = length (paramNames r)" "list_all segment segs"
        "path = fill (pieces fmt) segs"
        "m = map_of (rev (zip (paramNames r) (map Str segs))) |` (- {''__proto__''})"
      by blast
    from segs(1) have len: "length (map Str segs) = length (paramNames r)" by simp
    have d: "dom m - {''__proto__''} = set (paramNames r) - {''__proto__''}"
      unfolding segs(4) using dom_map_of_rev_zip[OF len] by auto
    have l: "m (paramNames r ! i) = Some (Str (segs ! i))"
      if "i < length (paramNames r)" "paramNames r ! i \<noteq> ''__proto__''"
        "\<forall>j. i < j \<and> j < length (paramNames r) \<longrightarrow> paramNames r ! j \<noteq> paramNames r ! i" for i
      unfolding segs(4) using map_of_rev_zip_last[OF len that(1,3)] that(1,2) segs(1)
      by (simp add: restrict_map_def)
    have s: "m = Map.empty" if "isStatic r"
      using that Route_fields(3)[OF assms] segs(4) by simp
    from segs(1,2,3) d l s Some show ?thesis by auto
  qed
qed

theorem parse_template_witness:
  "plain ''/{a}/{b}/{a}'' \<and>
   (\<exists>r m. Route ''/{a}/{b}/{a}'' = Inr r \<and> parse r ''/x/y/z'' = Some m \<and> match r ''/x/y/z'' \<and>
      fst (match_with regexp_exec r ''/x/y/z'') \<and>
      fst (parse_with regexp_exec r ''/x/y/z'') \<noteq> None \<and>
      m ''a'' = Some (Str ''z'') \<and> m ''b'' = Some (Str ''y'') \<and>
      (\<exists>segs. length segs = length (paramNames r) \<and> list_all segment segs \<and>
           ''/x/y/z'' = fill (pieces ''/{a}/{b}/{a}'') segs \<and>
           dom m - {''__proto__''} = set (paramNames r) - {''__proto__''} \<and>
           (\<forall>i < length (paramNames r).
              paramNames r ! i \<noteq> ''__proto__'' \<and>
              (\<forall>j. i < j \<and> j < length (paramNames r) \<longrightarrow> paramNames r ! j \<noteq> paramNames r ! i)
              \<longrightarrow> m (paramNames r ! i) = Some (Str (segs ! i))) \<and>
           (isStatic r \<longrightarrow> m = Map.empty)))"
proof -
  have p: "plain ''/{a}/{b}/{a}''" by code_simp
  have "case Route ''/{a}/{b}/{a}'' of Inl e \<Rightarrow> False
        | Inr r \<Rightarrow> (case parse r ''/x/y/z'' of None \<Rightarrow> False
             | Some m \<Rightarrow> m ''a'' = Some (Str ''z'') \<and> m ''b'' = Some (Str ''y''))"
    by code_simp
  then obtain r m where r: "Route ''/{a}/{b}/{a}'' = Inr r" "parse r ''/x/y/z'' = Some m"
    "m ''a'' = Some (Str ''z'')" "m ''b'' = Some (Str ''y'')"
    by (auto split: sum.splits option.splits)
  note t = parse_template[OF r(1), of regexp_exec r "''/x/y/z''"]
  from r(2) have np: "fst (parse_with regexp_exec r ''/x/y/z'') \<noteq> None"
    by (simp add: parse_def)
  with t have mw: "fst (match_with regexp_exec r ''/x/y/z'')"
    by blast
  then have mt: "match r ''/x/y/z''"
    by (simp add: match_def)
  from t p have "case parse r ''/x/y/z'' of
       None \<Rightarrow> True
     | Some m \<Rightarrow>
         \<exists>segs. length segs = length (paramNames r) \<and> list_all segment segs \<and>
           ''/x/y/z'' = fill (pieces ''/{a}/{b}/{a}'') segs \<and>
           dom m - {''__proto__''} = set (paramNames r) - {''__proto__''} \<and>
           (\<forall>i < length (paramNames r).
              paramNames r ! i \<noteq> ''__proto__'' \<and>
              (\<forall>j. i < j \<and> j < length (paramNames r) \<longrightarrow> paramNames r ! j \<noteq> paramNames r ! i)
              \<longrightarrow> m (paramNames r ! i) = Some (Str (segs ! i))) \<and>
           (isStatic r \<longrightarrow> m = Map.empty)"
    by blast
  with r(2) have "\<exists>segs. length segs = length (paramNames r) \<and> list_all segment segs \<and>
           ''/x/y/z'' = fill (pieces ''/{a}/{b}/{a}'') segs \<and>
           dom m - {''__proto__''} = set (paramNames r) - {''__proto__''} \<and>
           (\<forall>i < length (paramNames r).
              paramNames r ! i \<noteq> ''__proto__'' \<and>
              (\<forall>j. i < j \<and> j < length (paramNames r) \<longrightarrow> paramNames r ! j \<noteq> paramNames r ! i)
              \<longrightarrow> m (paramNames r ! i) = Some (Str (segs ! i))) \<and>
           (isStatic r \<longrightarrow> m = Map.empty)"
    by simp
  with r p np mw mt show ?thesis
    by blast
qed

text \<open>
  Claim C2 as stated fails: for the template \<open>/(a)/{x}\<close> and the path \<open>/a/v\<close>, \<open>parse\<close>
  maps \<open>x\<close> to \<open>a\<close>, which is not the text at the placeholder, and has an entry
  \<open>undefined\<close>, which is no name of \<open>paramNames\<close>.
\<close>

theorem parse_extra_group_counterexample:
  "new_parse ''/(a)/{x}'' ''/a/v'' = Inr (Some [''x'' \<mapsto> Str ''a'', ''undefined'' \<mapsto> Str ''v''])"
proof -
  have "case Route ''/(a)/{x}'' of Inl e \<Rightarrow> False
        | Inr r \<Rightarrow> paramNames r = [''x''] \<and>
            exec (ast (regex r)) ''/a/v'' = Some [Str ''/a/v'', Str ''a'', Str ''v'']"
    by code_simp
  then obtain r where r: "Route ''/(a)/{x}'' = Inr r" "paramNames r = [''x'']"
    "exec (ast (regex r)) ''/a/v'' = Some [Str ''/a/v'', Str ''a'', Str ''v'']"
    by (auto split: sum.splits)
  have "parse_loop [''x''] [Str ''/a/v'', Str ''a'', Str ''v''] 1 Map.empty
      = [''x'' \<mapsto> Str ''a'', ''undefined'' \<mapsto> Str ''v'']"
    by (simp add: parse_loop.simps prop_key_def set_prop_def)
  with r show ?thesis
    by (simp add: new_parse_def parse_flagless[OF Route_fields(5)[OF r(1)]])
qed

section \<open>Round trips\<close>

text \<open>
  Claim C3, as amended: for every dynamic route of a plain template whose placeholder
  names are pairwise distinct and other than \<open>__proto__\<close>, and every path that \<open>parse\<close>
  accepts, \<open>compile\<close> called with the mapping \<open>parse\<close> returns gives the path back.
\<close>

theorem compile_parse_round_trip:
  assumes "plain fmt" and "Route fmt = Inr r" and "\<not> isStatic r"
    and "distinct (paramNames r)" and "''__proto__'' \<notin> set (paramNames r)"
    and "parse r path = Some m"
  shows "compile r (Some m) = Inr path"
proof -
  from parse_plain[OF assms(1,2,6)] obtain segs where
    segs: "length segs = length (paramNames r)" "list_all segment segs"
      "path = fill (pieces fmt) segs"
      "m = map_of (rev (zip (paramNames r) (map Str segs))) |` (- {''__proto__''})"
    by blast
  from segs(1) have len: "length (map Str segs) = length (paramNames r)" by simp
  have val: "get_prop m (paramNames r ! i) = Str (segs ! i)" if "i < length (paramNames r)" for i
  proof -
    from assms(4) that
    have "\<forall>j. i < j \<and> j < length (paramNames r) \<longrightarrow> paramNames r ! j \<noteq> paramNames r ! i"
      by (auto simp: distinct_conv_nth)
    moreover from assms(5) that have "paramNames r ! i \<noteq> ''__proto__''"
      by (metis nth_mem)
    ultimately show ?thesis
      using map_of_rev_zip_last[OF len that] that segs(1)
      by (simp add: get_prop_def segs(4) restrict_map_def)
  qed
  have tr: "truthy (get_prop m n)" if "n \<in> set (paramNames r)" for n
  proof -
    from that obtain i where i: "i < length (paramNames r)" "n = paramNames r ! i"
      by (auto simp: in_set_conv_nth)
    with segs(1,2) have "segment (segs ! i)" by (simp add: list_all_length)
    with val[OF i(1)] i(2) show ?thesis by (simp add: truthy_def segment_def)
  qed
  then have "find (\<lambda>n. \<not> truthy (get_prop m n)) (paramNames r) = None"
    by (simp add: find_None_iff)
  moreover have "map (\<lambda>n. to_string (get_prop m n)) (paramNames r) = segs"
    by (rule nth_equalityI) (simp_all add: segs(1) val to_string_def)
  ultimately show ?thesis
    using compile_dynamic[OF assms(2)[unfolded Route_def] assms(3), of m] segs(3) by simp
qed

theorem compile_parse_round_trip_witness:
  "plain ''/foo/{bar}/{baz}'' \<and>
   (\<exists>r m. Route ''/foo/{bar}/{baz}'' = Inr r \<and> \<not> isStatic r \<and> distinct (paramNames r) \<and>
      ''__proto__'' \<notin> set (paramNames r) \<and>
      parse r ''/foo/abc/def'' = Some m \<and> compile r (Some m) = Inr ''/foo/abc/def'')"
proof -
  have p: "plain ''/foo/{bar}/{baz}''" by code_simp
  have "case Route ''/foo/{bar}/{baz}'' of Inl e \<Rightarrow> False
        | Inr r \<Rightarrow> \<not> isStatic r \<and> distinct (paramNames r) \<and>
            ''__proto__'' \<notin> set (paramNames r) \<and> parse r ''/foo/abc/def'' \<noteq> None"
    by code_simp
  then obtain r m where r: "Route ''/foo/{bar}/{baz}'' = Inr r" "\<not> isStatic r"
    "distinct (paramNames r)" "''__proto__'' \<notin> set (paramNames r)"
    "parse r ''/foo/abc/def'' = Some m"
    by (auto split: sum.splits)
  from compile_parse_round_trip[OF p r] r p show ?thesis
    by blast
qed

text \<open>
  Claim C3 as stated fails: on the static route \<open>/foo\<close>, \<open>parse\<close> accepts the path
  \<open>/foo\<close> and returns the empty mapping, and \<open>compile\<close> called with it throws.
\<close>

theorem compile_parse_static_counterexample:
  "new_parse ''/foo'' ''/foo'' = Inr (Some Map.empty) \<and>
   new_compile ''/foo'' (Some Map.empty)
     = Inl (Error ''expected no parameters for static url: /foo'')"
proof -
  have "case Route ''/foo'' of Inl e \<Rightarrow> False
        | Inr r \<Rightarrow> exec (ast (regex r)) ''/foo'' = Some [Str ''/foo'']"
    by code_simp
  then obtain r where r: "Route ''/foo'' = Inr r"
    "exec (ast (regex r)) ''/foo'' = Some [Str ''/foo'']"
    by (auto split: sum.splits)
  have "parse_loop (paramNames r) [Str ''/foo''] 1 Map.empty = Map.empty"
    by (simp add: parse_loop.simps)
  with r have "new_parse ''/foo'' ''/foo'' = Inr (Some Map.empty)"
    by (simp add: new_parse_def parse_flagless[OF Route_fields(5)[OF r(1)]])
  moreover have "new_compile ''/foo'' (Some Map.empty)
     = Inl (Error ''expected no parameters for static url: /foo'')"
    by code_simp
  ultimately show ?thesis by simp
qed

section \<open>The constructor\<close>

text \<open>
  Claim C8, as amended. For every template for which the constructor returns a route,
  whatever the host's \<open>new RegExp\<close> makes of the pattern: \<open>format\<close> is the template,
  \<open>paramNames\<close> lists the placeholder names in the order in which they appear in the
  template, \<open>isStatic\<close> is true iff \<open>paramNames\<close> is empty, and the matcher is what
  \<open>new RegExp\<close> returns for the text that has, between \<open>^\<close> and \<open>$\<close>, the literal text
  of the template as it is and \<open>([^/]+)\<close> for each placeholder. These fields never change
  after construction: after any sequence of calls of \<open>match\<close>, \<open>parse\<close> and \<open>compile\<close>,
  whatever the host's \<open>exec\<close> does, the three fields are what they were, and with the
  host as modelled here (a pattern without flags, whose \<open>lastIndex\<close> \<open>exec\<close> does not
  write) the whole route, the matcher included, is what it was. When the template is
  plain, the constructor does return a route, its matcher has exactly
  \<open>paramNames.length\<close> capture groups, and capture group \<open>i\<close> is the one that stands for
  the \<open>i\<close>-th placeholder.
\<close>

theorem constructor_fields:
  assumes "Route_with newRegExp fmt = Inr r"
  shows "format r = fmt \<and> piece_text (pieces fmt) = fmt \<and>
    paramNames r = placeholder_names (pieces fmt) \<and>
    isStatic r = (paramNames r = []) \<and>
    newRegExp (''^'' @ pattern_text (pieces fmt) @ ''$'') = Inr (regex r) \<and>
    format (after_with hostExec r cs) = format r \<and>
    paramNames (after_with hostExec r cs) = paramNames r \<and>
    isStatic (after_with hostExec r cs) = isStatic r \<and>
    (\<forall>r0. Route fmt = Inr r0 \<longrightarrow> after r0 cs = r0) \<and>
    (plain fmt \<longrightarrow>
       (\<exists>r0. Route fmt = Inr r0 \<and>
          ast (regex r0) = spec_pattern (pieces fmt) \<and>
          ngroups (ast (regex r0)) = length (paramNames r) \<and>
          groups_of (ast (regex r0)) = [1..<Suc (length (paramNames r))]))"
proof -
  have "\<exists>r0. Route fmt = Inr r0 \<and>
          ast (regex r0) = spec_pattern (pieces fmt) \<and>
          ngroups (ast (regex r0)) = length (paramNames r) \<and>
          groups_of (ast (regex r0)) = [1..<Suc (length (paramNames r))]" if "plain fmt"
    using Route_plain[OF that] Route_with_fields(2)[OF assms]
    by (simp add: ngroups_spec_pattern groups_of_spec_pattern)
  moreover have "\<forall>r0. Route fmt = Inr r0 \<longrightarrow> after r0 cs = r0"
    by (simp add: after_Route)
  ultimately show ?thesis
    using Route_with_fields[OF assms] piece_text_pieces[of fmt] after_with_fields[of hostExec r cs]
    by blast
qed

theorem constructor_fields_witness:
  "\<exists>r. Route_with new_RegExp ''/foo/{bar}/{baz}'' = Inr r \<and> plain ''/foo/{bar}/{baz}'' \<and>
     format r = ''/foo/{bar}/{baz}'' \<and>
     piece_text (pieces ''/foo/{bar}/{baz}'') = ''/foo/{bar}/{baz}'' \<and>
     paramNames r = [''bar'', ''baz''] \<and>
     paramNames r = placeholder_names (pieces ''/foo/{bar}/{baz}'') \<and>
     isStatic r = (paramNames r = []) \<and>
     pattern_text (pieces ''/foo/{bar}/{baz}'') = ''/foo/([^/]+)/([^/]+)'' \<and>
     new_RegExp (''^'' @ pattern_text (pieces ''/foo/{bar}/{baz}'') @ ''$'') = Inr (regex r) \<and>
     after r [Match ''/foo/a/b'', Parse ''/foo/a/b'', Compile None, Match ''/bar'',
              Compile (Some [''bar'' \<mapsto> Str ''a'', ''baz'' \<mapsto> Str ''b''])] = r \<and>
     ast (regex r) = spec_pattern (pieces ''/foo/{bar}/{baz}'') \<and>
     ngroups (ast (regex r)) = length (paramNames r) \<and>
     groups_of (ast (regex r)) = [1..<Suc (length (paramNames r))]"
proof -
  have p: "plain ''/foo/{bar}/{baz}''" by code_simp
  have "case Route_with new_RegExp ''/foo/{bar}/{baz}'' of Inl e \<Rightarrow> False
        | Inr r \<Rightarrow> paramNames r = [''bar'', ''baz'']"
    by code_simp
  then obtain r where r: "Route_with new_RegExp ''/foo/{bar}/{baz}'' = Inr r"
    "paramNames r = [''bar'', ''baz'']"
    by (auto split: sum.splits)
  let ?cs = "[Match ''/foo/a/b'', Parse ''/foo/a/b'', Compile None, Match ''/bar'',
              Compile (Some [''bar'' \<mapsto> Str ''a'', ''baz'' \<mapsto> Str ''b''])]"
  note c = constructor_fields[OF r(1), of regexp_exec ?cs]
  from c have f: "format r = ''/foo/{bar}/{baz}''"
      "piece_text (pieces ''/foo/{bar}/{baz}'') = ''/foo/{bar}/{baz}''"
      "paramNames r = placeholder_names (pieces ''/foo/{bar}/{baz}'')"
      "isStatic r = (paramNames r = [])"
      "new_RegExp (''^'' @ pattern_text (pieces ''/foo/{bar}/{baz}'') @ ''$'') = Inr (regex r)"
    by blast+
  have t: "pattern_text (pieces ''/foo/{bar}/{baz}'') = ''/foo/([^/]+)/([^/]+)''"
    by code_simp
  from r(1) have r': "Route ''/foo/{bar}/{baz}'' = Inr r"
    by (simp add: Route_def)
  from c r' have a: "after r ?cs = r"
    by blast
  from c p obtain r0 where r0: "Route ''/foo/{bar}/{baz}'' = Inr r0"
      "ast (regex r0) = spec_pattern (pieces ''/foo/{bar}/{baz}'')"
      "ngroups (ast (regex r0)) = length (paramNames r)"
      "groups_of (ast (regex r0)) = [1..<Suc (length (paramNames r))]"
    by blast
  from r0(1) r' have "r0 = r" by simp
  with r0 have g: "ast (regex r) = spec_pattern (pieces ''/foo/{bar}/{baz}'')"
      "ngroups (ast (regex r)) = length (paramNames r)"
      "groups_of (ast (regex r)) = [1..<Suc (length (paramNames r))]"
    by simp_all
  from r p f t a g show ?thesis
    by blast
qed

text \<open>
  Claim C8 as stated fails: the template \<open>/(a)/{x}\<close> has one placeholder, and the
  matcher of its route has two capture groups; group 1 is the parenthesis of the
  literal text, not the placeholder.
\<close>

theorem constructor_extra_group_counterexample:
  "Route ''/(a)/{x}''
     = Inr \<lparr>format = ''/(a)/{x}'', paramNames = [''x''], isStatic = False,
            regex = \<lparr>ast = foldr Seq [Bol, Chr CHR ''/'', Group 1 (Seq (Chr CHR ''a'') Empty),
                                      Chr CHR ''/'', segment_group 2, Eol] Empty,
                     global = False, lastIndex = 0\<rparr>\<rparr> \<and>
   ngroups (foldr Seq [Bol, Chr CHR ''/'', Group 1 (Seq (Chr CHR ''a'') Empty),
                       Chr CHR ''/'', segment_group 2, Eol] Empty) = 2"
  by code_simp

section \<open>From values to a path and back\<close>

lemma fill_literal_prefix:
  "fill ps segs =
     literal_text (takeWhile (\<lambda>p. case p of Lit c \<Rightarrow> True | Hit m \<Rightarrow> False) ps)
       @ fill (dropWhile (\<lambda>p. case p of Lit c \<Rightarrow> True | Hit m \<Rightarrow> False) ps) segs"
proof (induction ps)
  case Nil
  show ?case by simp
next
  case (Cons p ps)
  then show ?case by (cases p) simp_all
qed

lemma segment_head_unique:
  assumes sep: "placeholder_names ps = [] \<or>
      CHR ''/'' \<in> set (literal_text (takeWhile (\<lambda>p. case p of Lit c \<Rightarrow> True | Hit m \<Rightarrow> False) ps))"
    and len: "length ss = length (placeholder_names ps)" "length ss' = length (placeholder_names ps)"
    and seg: "segment u" "segment u'"
    and eq: "u @ fill ps ss = u' @ fill ps ss'"
  shows "u = u'"
  using sep
proof
  assume "placeholder_names ps = []"
  with len have "ss = []" "ss' = []" by simp_all
  with eq show ?thesis by simp
next
  let ?L = "literal_text (takeWhile (\<lambda>p. case p of Lit c \<Rightarrow> True | Hit m \<Rightarrow> False) ps)"
  let ?D = "dropWhile (\<lambda>p. case p of Lit c \<Rightarrow> True | Hit m \<Rightarrow> False) ps"
  assume "CHR ''/'' \<in> set ?L"
  then obtain a b where ab: "?L = a @ CHR ''/'' # b" "CHR ''/'' \<notin> set a"
    by (auto dest: split_list_first)
  have "u @ fill ps ss = (u @ a) @ CHR ''/'' # (b @ fill ?D ss)"
    by (subst fill_literal_prefix) (simp add: ab(1))
  moreover have "u' @ fill ps ss' = (u' @ a) @ CHR ''/'' # (b @ fill ?D ss')"
    by (subst fill_literal_prefix) (simp add: ab(1))
  ultimately have e: "(u @ a) @ CHR ''/'' # (b @ fill ?D ss) = (u' @ a) @ CHR ''/'' # (b @ fill ?D ss')"
    using eq by (simp only:)
  from seg ab(2) have n: "CHR ''/'' \<notin> set (u @ a)" "CHR ''/'' \<notin> set (u' @ a)"
    by (simp_all add: segment_def)
  from first_occurrence_unique[OF n e] show ?thesis by simp
qed

lemma fill_unique:
  assumes "separated ps"
    and "length segs = length (placeholder_names ps)"
    and "length segs' = length (placeholder_names ps)"
    and "list_all segment segs" and "list_all segment segs'"
    and "fill ps segs = fill ps segs'"
  shows "segs = segs'"
  using assms
proof (induction ps arbitrary: segs segs')
  case Nil
  then show ?case by simp
next
  case (Cons p ps)
  show ?case
  proof (cases p)
    case (Lit c)
    with Cons.prems Cons.IH[of segs segs'] show ?thesis by simp
  next
    case (Hit m)
    from Cons.prems(2) Hit obtain u ss where s1: "segs = u # ss"
      by (cases segs) auto
    from Cons.prems(3) Hit obtain u' ss' where s2: "segs' = u' # ss'"
      by (cases segs') auto
    from Cons.prems Hit s1 s2 have
      sep: "placeholder_names ps = [] \<or> CHR ''/'' \<in> set (literal_text
              (takeWhile (\<lambda>p. case p of Lit c \<Rightarrow> True | Hit m \<Rightarrow> False) ps))"
      and sp: "separated ps"
      and len: "length ss = length (placeholder_names ps)" "length ss' = length (placeholder_names ps)"
      and seg: "segment u" "segment u'" "list_all segment ss" "list_all segment ss'"
      and eq: "u @ fill ps ss = u' @ fill ps ss'"
      by simp_all
    from segment_head_unique[OF sep len seg(1,2) eq] have u: "u = u'" .
    with eq have "fill ps ss = fill ps ss'" by simp
    from Cons.IH[OF sp len seg(3,4) this] u s1 s2 show ?thesis by simp
  qed
qed

text \<open>
  Claim C4, as amended: for every dynamic route of a plain template whose placeholders
  are separated (a \<open>/\<close> in the literal text between each placeholder and the next) and
  have names other than \<open>__proto__\<close>, and every mapping that gives each placeholder name
  a segment (a non-empty string without \<open>/\<close>), \<open>compile\<close> returns a path and \<open>parse\<close> of
  that path is the mapping restricted to the placeholder names.
\<close>

theorem parse_compile_round_trip:
  assumes "plain fmt" and "Route fmt = Inr r" and "\<not> isStatic r"
    and "separated (pieces fmt)"
    and "\<forall>n \<in> set (paramNames r). \<exists>s. vals n = Some (Str s) \<and> segment s"
    and "''__proto__'' \<notin> set (paramNames r)"
  shows "\<exists>path. compile r (Some vals) = Inr path \<and>
    parse r path = Some (vals |` set (paramNames r))"
proof -
  let ?names = "paramNames r"
  let ?f = "\<lambda>n. to_string (get_prop vals n)"
  let ?segs = "map ?f ?names"
  let ?path = "fill (pieces fmt) ?segs"
  have v: "vals n = Some (Str (?f n)) \<and> segment (?f n)" if "n \<in> set ?names" for n
    using assms(5) that by (auto simp: get_prop_def to_string_def)
  have "truthy (get_prop vals n)" if "n \<in> set ?names" for n
  proof -
    from assms(5) that obtain s where "vals n = Some (Str s)" "segment s" by blast
    then show ?thesis by (simp add: get_prop_def truthy_def segment_def)
  qed
  then have "find (\<lambda>n. \<not> truthy (get_prop vals n)) ?names = None"
    by (simp add: find_None_iff)
  with compile_dynamic[OF assms(2)[unfolded Route_def] assms(3), of vals]
  have c: "compile r (Some vals) = Inr ?path" by simp
  have names: "?names = placeholder_names (pieces fmt)"
    by (rule Route_fields(2)[OF assms(2)])
  have segs: "length ?segs = length (placeholder_names (pieces fmt))" "list_all segment ?segs"
    using v names by (simp_all add: list_all_iff)
  then have "exec (spec_pattern (pieces fmt)) ?path \<noteq> None"
    unfolding exec_spec_pattern_None by blast
  then obtain m where m: "parse r ?path = Some m"
    by (auto simp: parse_flagless[OF Route_fields(5)[OF assms(2)]] regex_plain[OF assms(1,2)])
  from parse_plain[OF assms(1,2) m] obtain segs' where
    segs': "length segs' = length ?names" "list_all segment segs'"
      "?path = fill (pieces fmt) segs'"
      "m = map_of (rev (zip ?names (map Str segs'))) |` (- {''__proto__''})"
    by blast
  from segs' names have l': "length segs' = length (placeholder_names (pieces fmt))" by simp
  from fill_unique[OF assms(4) segs(1) l' segs(2) segs'(2) segs'(3)] have e: "?segs = segs'" .
  have "zip (rev ?names) (map (\<lambda>n. Str (?f n)) (rev ?names))
      = zip (rev ?names) (rev (map (\<lambda>n. Str (?f n)) ?names))"
    by (simp add: rev_map)
  also have "\<dots> = rev (zip ?names (map (\<lambda>n. Str (?f n)) ?names))"
    by (rule zip_rev) simp
  also have "map (\<lambda>n. Str (?f n)) ?names = map Str ?segs"
    by simp
  finally have "rev (zip ?names (map Str ?segs))
      = zip (rev ?names) (map (\<lambda>n. Str (?f n)) (rev ?names))"
    by simp
  then have "map_of (rev (zip ?names (map Str ?segs)))
      = (\<lambda>k. if k \<in> set ?names then Some (Str (?f k)) else None)"
    by (simp only: map_of_zip_map set_rev)
  with segs'(4) e
  have "m = (\<lambda>k. if k \<in> set ?names then Some (Str (?f k)) else None) |` (- {''__proto__''})"
    by simp
  also have "\<dots> = (\<lambda>k. if k \<in> set ?names then Some (Str (?f k)) else None)"
    using assms(6) by (auto simp: restrict_map_def fun_eq_iff)
  also have "\<dots> = vals |` set ?names"
    using v by (auto simp: restrict_map_def fun_eq_iff)
  finally show ?thesis using c m by blast
qed

theorem parse_compile_round_trip_witness:
  "plain ''/foo/{bar}/{baz}'' \<and> separated (pieces ''/foo/{bar}/{baz}'') \<and>
   (\<exists>r. Route ''/foo/{bar}/{baz}'' = Inr r \<and> \<not> isStatic r \<and>
      paramNames r = [''bar'', ''baz''] \<and>
      (\<exists>path. compile r (Some [''bar'' \<mapsto> Str ''abc'', ''baz'' \<mapsto> Str ''def'']) = Inr path \<and>
         parse r path
           = Some ([''bar'' \<mapsto> Str ''abc'', ''baz'' \<mapsto> Str ''def''] |` set (paramNames r))))"
proof -
  have p: "plain ''/foo/{bar}/{baz}''" by code_simp
  have s: "separated (pieces ''/foo/{bar}/{baz}'')" by code_simp
  have "case Route ''/foo/{bar}/{baz}'' of Inl e \<Rightarrow> False
        | Inr r \<Rightarrow> \<not> isStatic r \<and> paramNames r = [''bar'', ''baz'']"
    by code_simp
  then obtain r where r: "Route ''/foo/{bar}/{baz}'' = Inr r" "\<not> isStatic r"
    "paramNames r = [''bar'', ''baz'']"
    by (auto split: sum.splits)
  have v: "\<forall>n \<in> set (paramNames r).
      \<exists>s. [''bar'' \<mapsto> Str ''abc'', ''baz'' \<mapsto> Str ''def''] n = Some (Str s) \<and> segment s"
    by (simp add: r(3) segment_def)
  have n: "''__proto__'' \<notin> set (paramNames r)"
    by (simp add: r(3))
  from parse_compile_round_trip[OF p r(1,2) s v n] p s r show ?thesis
    by blast
qed

text \<open>
  Claim C4 as stated fails: for the template \<open>/{a}-{b}\<close> and the values \<open>a = x\<close>,
  \<open>b = y-z\<close>, \<open>compile\<close> gives \<open>/x-y-z\<close>, and \<open>parse\<close> of that path gives \<open>a = x-y\<close>,
  \<open>b = z\<close>.
\<close>

theorem parse_compile_ambiguous_counterexample:
  "new_compile ''/{a}-{b}'' (Some [''a'' \<mapsto> Str ''x'', ''b'' \<mapsto> Str ''y-z'']) = Inr ''/x-y-z'' \<and>
   new_parse ''/{a}-{b}'' ''/x-y-z'' = Inr (Some [''a'' \<mapsto> Str ''x-y'', ''b'' \<mapsto> Str ''z''])"
proof -
  have c: "new_compile ''/{a}-{b}'' (Some [''a'' \<mapsto> Str ''x'', ''b'' \<mapsto> Str ''y-z''])
      = Inr ''/x-y-z''"
    by code_simp
  have "case Route ''/{a}-{b}'' of Inl e \<Rightarrow> False
        | Inr r \<Rightarrow> paramNames r = [''a'', ''b''] \<and>
            exec (ast (regex r)) ''/x-y-z'' = Some [Str ''/x-y-z'', Str ''x-y'', Str ''z'']"
    by code_simp
  then obtain r where r: "Route ''/{a}-{b}'' = Inr r" "paramNames r = [''a'', ''b'']"
    "exec (ast (regex r)) ''/x-y-z'' = Some [Str ''/x-y-z'', Str ''x-y'', Str ''z'']"
    by (auto split: sum.splits)
  have "parse_loop [''a'', ''b''] [Str ''/x-y-z'', Str ''x-y'', Str ''z''] 1 Map.empty
      = [''a'' \<mapsto> Str ''x-y'', ''b'' \<mapsto> Str ''z'']"
    by (simp add: parse_loop.simps prop_key_def set_prop_def)
  with r c show ?thesis
    by (simp add: new_parse_def parse_flagless[OF Route_fields(5)[OF r(1)]])
qed

end
